theory Spec2Isabelle
  imports Main "HOL-Library.Word" "HOL-Library.Signed_Division"
begin

unbundle bit_operations_syntax

section \<open>The pager (pager.go)\<close>

text \<open>
  Go's \<^verbatim>\<open>int64\<close> and \<^verbatim>\<open>int\<close> (64 bits on the targets of the program) are
  64-bit words: \<open>+\<close> and \<open>*\<close> wrap around, comparisons are the signed ones
  (\<open>\<le>s\<close>, \<open><s\<close>), and \<open>sint\<close> reads the two's complement value. A page is the array
  \<^verbatim>\<open>[PageSize]byte\<close>, here a list of bytes whose length is \<open>PageSize\<close>.
\<close>

type_synonym byte = "8 word"
type_synonym int64 = "64 word"
type_synonym PageID = "64 word"
type_synonym Page = "byte list"

definition PageSize :: nat where
  "PageSize = 4096"

text \<open>
  The errors the program can produce. \<open>ReadPastEnd\<close> is the error \<^verbatim>\<open>ReadPage\<close> builds
  itself; \<open>EOF\<close> and \<open>NegativeOffset\<close> are the errors \<^verbatim>\<open>os.File.ReadAt\<close> and
  \<^verbatim>\<open>WriteAt\<close> return for a short read and for an offset below zero;
  \<open>DuplicateKey\<close> is the error of \<^verbatim>\<open>Insert\<close>; \<open>Panic\<close> stands for a run-time
  panic (an index or slice bound out of range, or the explicit \<^verbatim>\<open>panic\<close> of
  \<^verbatim>\<open>NewBPlusTree\<close>). Failures of the device itself are outside the model.
\<close>

datatype error = ReadPastEnd PageID | EOF | NegativeOffset | DuplicateKey int64 | Panic

text \<open>
  The pager: the bytes of the open file (field \<^verbatim>\<open>file\<close> of the source), and the two
  tracked counters.
\<close>

record Pager =
  file' :: "byte list"
  fileSize :: int64
  numPages :: int64

text \<open>Go's \<^verbatim>\<open>/\<close> on \<^verbatim>\<open>int64\<close> truncates towards zero.\<close>

definition go_div :: "int64 \<Rightarrow> int64 \<Rightarrow> int64" where
  "go_div a b = word_of_int (sint a sdiv sint b)"

text \<open>
  \<^verbatim>\<open>NewPager\<close>, given the bytes the file at the path holds once opened (none for a file
  just created).
\<close>

definition NewPager :: "byte list \<Rightarrow> Pager" where
  "NewPager contents =
     (let fileSize = word_of_nat (length contents);
          numPages = go_div fileSize (word_of_nat PageSize)
      in \<lparr>file' = contents, fileSize = fileSize, numPages = numPages\<rparr>)"

text \<open>
  \<^verbatim>\<open>os.File.ReadAt(b, off)\<close>: the bytes available from \<open>off\<close> on are copied into the
  front of the buffer; fewer than \<open>length b\<close> of them is the error \<open>EOF\<close>.
  \<^verbatim>\<open>os.File.WriteAt(b, off)\<close>: the buffer replaces the bytes from \<open>off\<close> on, a gap
  between the end of the file and \<open>off\<close> reads as zeros.
\<close>

definition ReadAt :: "byte list \<Rightarrow> Page \<Rightarrow> int \<Rightarrow> Page \<times> error option" where
  "ReadAt f b off =
     (if off < 0 then (b, Some NegativeOffset)
      else let n = min (length b) (length f - nat off)
           in (take n (drop (nat off) f) @ drop n b,
               if n < length b then Some EOF else None))"

definition WriteAt :: "byte list \<Rightarrow> Page \<Rightarrow> int \<Rightarrow> byte list \<times> error option" where
  "WriteAt f b off =
     (if off < 0 then (f, Some NegativeOffset)
      else (take (nat off) f @ replicate (nat off - length f) 0 @ b
              @ drop (nat off + length b) f, None))"

text \<open>
  \<^verbatim>\<open>ReadPage\<close> returns the buffer it was given (filled by \<^verbatim>\<open>ReadAt\<close>, or untouched)
  and the error.
\<close>

definition ReadPage :: "Pager \<Rightarrow> PageID \<Rightarrow> Page \<Rightarrow> Page \<times> error option" where
  "ReadPage p pageID pageData =
     (let offset = pageID * word_of_nat PageSize
      in if fileSize p \<le>s offset then (pageData, Some (ReadPastEnd pageID))
         else ReadAt (file' p) pageData (sint offset))"

definition WritePage :: "Pager \<Rightarrow> PageID \<Rightarrow> Page \<Rightarrow> Pager \<times> error option" where
  "WritePage p pageID pageData =
     (let offset = pageID * word_of_nat PageSize
      in case WriteAt (file' p) pageData (sint offset) of
           (f', Some err) \<Rightarrow> (p, Some err)
         | (f', None) \<Rightarrow>
             (if fileSize p <s offset + word_of_nat PageSize
              then (p\<lparr>file' := f', fileSize := offset + word_of_nat PageSize,
                       numPages := go_div (offset + word_of_nat PageSize) (word_of_nat PageSize)\<rparr>,
                    None)
              else (p\<lparr>file' := f'\<rparr>, None)))"

definition AllocatePage :: "Pager \<Rightarrow> PageID \<times> Pager" where
  "AllocatePage p =
     (numPages p, p\<lparr>numPages := numPages p + 1, fileSize := fileSize p + word_of_nat PageSize\<rparr>)"

text \<open>
  The relation between the two tracked counters, in the arithmetic of \<^verbatim>\<open>int64\<close>.
\<close>

definition sizeInv :: "Pager \<Rightarrow> bool" where
  "sizeInv p \<longleftrightarrow> fileSize p = numPages p * word_of_nat PageSize"

section \<open>Pages (btree.go)\<close>

text \<open>
  \<^verbatim>\<open>binary.LittleEndian\<close>: the value of a sequence of bytes, least significant byte first,
  and the first \<open>n\<close> bytes of a value.
\<close>

fun le_dec :: "byte list \<Rightarrow> int64" where
  "le_dec [] = 0"
| "le_dec (b # bs) = ucast b OR push_bit 8 (le_dec bs)"

fun le_enc :: "nat \<Rightarrow> int64 \<Rightarrow> byte list" where
  "le_enc 0 v = []"
| "le_enc (Suc n) v = ucast v # le_enc n (drop_bit 8 v)"

text \<open>The layout of the page header, and the two node types.\<close>

abbreviation (input) nodeTypeOffset :: nat where "nodeTypeOffset \<equiv> 0"
abbreviation (input) isRootOffset :: nat where "isRootOffset \<equiv> 1"
abbreviation (input) parentPtrOffset :: nat where "parentPtrOffset \<equiv> 8"
abbreviation (input) numKeysOffset :: nat where "numKeysOffset \<equiv> 16"
abbreviation (input) nextLeafPtrOffset :: nat where "nextLeafPtrOffset \<equiv> 24"
abbreviation (input) headerSize :: nat where "headerSize \<equiv> 32"

abbreviation (input) NodeTypeLeaf :: byte where "NodeTypeLeaf \<equiv> 0"
abbreviation (input) NodeTypeInternal :: byte where "NodeTypeInternal \<equiv> 1"

text \<open>\<^verbatim>\<open>new(Page)\<close>: a page of zeros.\<close>

definition newPage :: Page where
  "newPage = replicate PageSize 0"

text \<open>
  Reading and writing eight bytes at an offset of a page. \<open>get64\<close> and \<open>put64\<close> are
  the accesses at an offset that lies in the page; \<^verbatim>\<open>Uint64(page[off:])\<close> and
  \<^verbatim>\<open>PutUint64(page[off:], v)\<close> at a computed offset panic when fewer than eight bytes
  are left from \<open>off\<close> on.
\<close>

definition get64 :: "Page \<Rightarrow> nat \<Rightarrow> int64" where
  "get64 page off = le_dec (take 8 (drop off page))"

definition put64 :: "Page \<Rightarrow> nat \<Rightarrow> int64 \<Rightarrow> Page" where
  "put64 page off v = take off page @ le_enc 8 v @ drop (off + 8) page"

definition Uint64 :: "Page \<Rightarrow> nat \<Rightarrow> error + int64" where
  "Uint64 page off = (if off + 8 \<le> length page then Inr (get64 page off) else Inl Panic)"

definition PutUint64 :: "Page \<Rightarrow> nat \<Rightarrow> int64 \<Rightarrow> error + Page" where
  "PutUint64 page off v = (if off + 8 \<le> length page then Inr (put64 page off v) else Inl Panic)"

text \<open>
  \<^verbatim>\<open>copy(page[dst:], page[src:srcEnd])\<close>: both slice expressions panic out of range; the
  number of bytes copied is the shorter of the two lengths, and the copy is that of the
  bytes as they were before (the regions may overlap).
\<close>

definition copyWithin :: "Page \<Rightarrow> nat \<Rightarrow> nat \<Rightarrow> nat \<Rightarrow> error + Page" where
  "copyWithin page dst src srcEnd =
     (if dst \<le> length page \<and> src \<le> srcEnd \<and> srcEnd \<le> length page
      then let n = min (length page - dst) (srcEnd - src)
           in Inr (take dst page @ take n (drop src page) @ drop (dst + n) page)
      else Inl Panic)"

text \<open>\<^verbatim>\<open>clear(page[headerSize:])\<close>.\<close>

definition clearPayload :: "Page \<Rightarrow> Page" where
  "clearPayload page = take headerSize page @ replicate (length page - headerSize) 0"

text \<open>The helper functions for the page header.\<close>

definition isLeaf :: "Page \<Rightarrow> bool" where
  "isLeaf page \<longleftrightarrow> page ! nodeTypeOffset = NodeTypeLeaf"

definition getNumKeys :: "Page \<Rightarrow> nat" where
  "getNumKeys page = unat (le_dec (take 2 (drop numKeysOffset page)))"

text \<open>
  The callers pass \<^verbatim>\<open>uint16(n)\<close> for a count \<open>n\<close>; the two bytes written are the low
  sixteen bits of \<open>n\<close>.
\<close>

definition setNumKeys :: "Page \<Rightarrow> nat \<Rightarrow> Page" where
  "setNumKeys page numKeys =
     take numKeysOffset page @ le_enc 2 (word_of_nat numKeys) @ drop (numKeysOffset + 2) page"

definition getNextLeafPageID :: "Page \<Rightarrow> PageID" where
  "getNextLeafPageID page = get64 page nextLeafPtrOffset"

definition setNextLeafPageID :: "Page \<Rightarrow> PageID \<Rightarrow> Page" where
  "setNextLeafPageID page pageID = put64 page nextLeafPtrOffset pageID"

definition isRoot :: "Page \<Rightarrow> bool" where
  "isRoot page \<longleftrightarrow> page ! isRootOffset = 1"

definition setIsRoot :: "Page \<Rightarrow> bool \<Rightarrow> Page" where
  "setIsRoot page isRoot' = (if isRoot' then page[isRootOffset := 1] else page[isRootOffset := 0])"

definition getParentPageID :: "Page \<Rightarrow> PageID" where
  "getParentPageID page = get64 page parentPtrOffset"

definition setParentPageID :: "Page \<Rightarrow> PageID \<Rightarrow> Page" where
  "setParentPageID page pageID = put64 page parentPtrOffset pageID"

section \<open>The tree (btree.go)\<close>

record BPlusTree =
  pager :: Pager
  rootPageID :: PageID
  degree :: int

text \<open>
  \<^verbatim>\<open>NewBPlusTree\<close> panics for a degree below 3; the result of its \<^verbatim>\<open>WritePage\<close> is
  dropped, as in the source.
\<close>

definition NewBPlusTree :: "Pager \<Rightarrow> int \<Rightarrow> error + BPlusTree" where
  "NewBPlusTree pager' degree' =
     (if degree' < 3 then Inl Panic
      else if numPages pager' = 0 then
        let rootPageData = newPage[nodeTypeOffset := NodeTypeLeaf];
            rootPageData = setIsRoot rootPageData True;
            rootPageData = setParentPageID rootPageData (- 1);
            rootPageData = setNumKeys rootPageData 0;
            rootPageData = setNextLeafPageID rootPageData (- 1)
        in Inr \<lparr>pager = fst (WritePage pager' 0 rootPageData), rootPageID = 0, degree = degree'\<rparr>
      else Inr \<lparr>pager = pager', rootPageID = 0, degree = degree'\<rparr>)"

subsection \<open>Search\<close>

text \<open>
  The scan of the separator keys of an internal page for the first one above \<open>key\<close>: the
  inner loop of \<^verbatim>\<open>findLeafPage\<close>, and the same loop in \<^verbatim>\<open>insertIntoParent\<close>.
\<close>

function separatorIndex :: "Page \<Rightarrow> int64 \<Rightarrow> nat \<Rightarrow> nat \<Rightarrow> error + nat" where
  "separatorIndex page key numKeys i =
     (if i < numKeys then
        (case Uint64 page (headerSize + i * 16 + 8) of
           Inl e \<Rightarrow> Inl e
         | Inr k \<Rightarrow> if key <s k then Inr i else separatorIndex page key numKeys (i + 1))
      else Inr i)"
  by pat_completeness auto
termination
  by (relation "measure (\<lambda>(page, key, numKeys, i). numKeys - i)") auto

declare separatorIndex.simps [simp del]

text \<open>
  The descent of \<^verbatim>\<open>findLeafPage\<close> from a page on. The loop of the source has no bound:
  on a file whose child pointers form a cycle it does not return, which is the value
  \<open>None\<close> here.
\<close>

partial_function (option) findLeafPageFrom ::
  "BPlusTree \<Rightarrow> int64 \<Rightarrow> PageID \<Rightarrow> (error + PageID) option" where
  "findLeafPageFrom t key currentPageID =
     (case ReadPage (pager t) currentPageID newPage of
        (page, Some err) \<Rightarrow> Some (Inl err)
      | (page, None) \<Rightarrow>
          if isLeaf page then Some (Inr currentPageID)
          else (case separatorIndex page key (getNumKeys page) 0 of
                  Inl e \<Rightarrow> Some (Inl e)
                | Inr i \<Rightarrow>
                    (case Uint64 page (headerSize + i * 16) of
                       Inl e \<Rightarrow> Some (Inl e)
                     | Inr next \<Rightarrow> findLeafPageFrom t key next)))"

definition findLeafPage :: "BPlusTree \<Rightarrow> int64 \<Rightarrow> (error + PageID) option" where
  "findLeafPage t key = findLeafPageFrom t key (rootPageID t)"

text \<open>The scan of a leaf for \<open>key\<close> (the loop of \<^verbatim>\<open>Search\<close>).\<close>

function searchKeys :: "Page \<Rightarrow> int64 \<Rightarrow> nat \<Rightarrow> nat \<Rightarrow> error + (int64 \<times> bool)" where
  "searchKeys page key numKeys i =
     (if i < numKeys then
        (case Uint64 page (headerSize + i * 16) of
           Inl e \<Rightarrow> Inl e
         | Inr k \<Rightarrow>
             if k = key then
               (case Uint64 page (headerSize + i * 16 + 8) of
                  Inl e \<Rightarrow> Inl e
                | Inr v \<Rightarrow> Inr (v, True))
             else searchKeys page key numKeys (i + 1))
      else Inr (0, False))"
  by pat_completeness auto
termination
  by (relation "measure (\<lambda>(page, key, numKeys, i). numKeys - i)") auto

declare searchKeys.simps [simp del]

text \<open>
  \<^verbatim>\<open>Search\<close> returns the offset and the flag, or the error (with which the source
  returns \<open>(0, false)\<close>).
\<close>

definition Search :: "BPlusTree \<Rightarrow> int64 \<Rightarrow> (error + (int64 \<times> bool)) option" where
  "Search t key =
     (case findLeafPage t key of
        None \<Rightarrow> None
      | Some (Inl err) \<Rightarrow> Some (Inl err)
      | Some (Inr leafPageID) \<Rightarrow>
          (case ReadPage (pager t) leafPageID newPage of
             (page, Some err) \<Rightarrow> Some (Inl err)
           | (page, None) \<Rightarrow> Some (searchKeys page key (getNumKeys page) 0)))"

text \<open>
  The inner loop of \<^verbatim>\<open>SearchRange\<close> over the entries of one leaf; it returns the results
  so far and \<^verbatim>\<open>foundEnd\<close>.
\<close>

function scanLeaf ::
  "Page \<Rightarrow> int64 \<Rightarrow> int64 \<Rightarrow> nat \<Rightarrow> nat \<Rightarrow> int64 list \<Rightarrow> error + (int64 list \<times> bool)" where
  "scanLeaf page startKey endKey numKeys i results =
     (if i < numKeys then
        (case Uint64 page (headerSize + i * 16) of
           Inl e \<Rightarrow> Inl e
         | Inr currentKey \<Rightarrow>
             if endKey <s currentKey then Inr (results, True)
             else if startKey \<le>s currentKey then
               (case Uint64 page (headerSize + i * 16 + 8) of
                  Inl e \<Rightarrow> Inl e
                | Inr v \<Rightarrow> scanLeaf page startKey endKey numKeys (i + 1) (results @ [v]))
             else scanLeaf page startKey endKey numKeys (i + 1) results)
      else Inr (results, False))"
  by pat_completeness auto
termination
  by (relation "measure (\<lambda>(page, startKey, endKey, numKeys, i, results). numKeys - i)") auto

declare scanLeaf.simps [simp del]

text \<open>
  The outer loop of \<^verbatim>\<open>SearchRange\<close> along the chain of leaves; a chain that runs into a
  cycle is followed for ever.
\<close>

partial_function (option) scanLeaves ::
  "BPlusTree \<Rightarrow> int64 \<Rightarrow> int64 \<Rightarrow> PageID \<Rightarrow> int64 list \<Rightarrow> (error + int64 list) option" where
  "scanLeaves t startKey endKey leafPageID results =
     (if leafPageID = - 1 then Some (Inr results)
      else (case ReadPage (pager t) leafPageID newPage of
              (page, Some err) \<Rightarrow> Some (Inl err)
            | (page, None) \<Rightarrow>
                (case scanLeaf page startKey endKey (getNumKeys page) 0 results of
                   Inl e \<Rightarrow> Some (Inl e)
                 | Inr (results', foundEnd) \<Rightarrow>
                     if foundEnd then Some (Inr results')
                     else scanLeaves t startKey endKey (getNextLeafPageID page) results')))"

definition SearchRange :: "BPlusTree \<Rightarrow> int64 \<Rightarrow> int64 \<Rightarrow> (error + int64 list) option" where
  "SearchRange t startKey endKey =
     (if endKey <s startKey then Some (Inr [])
      else (case findLeafPage t startKey of
              None \<Rightarrow> None
            | Some (Inl err) \<Rightarrow> Some (Inl err)
            | Some (Inr leafPageID) \<Rightarrow> scanLeaves t startKey endKey leafPageID []))"

subsection \<open>Insert into a leaf\<close>

text \<open>The duplicate check of \<^verbatim>\<open>Insert\<close>: the loop over the keys of the leaf.\<close>

function hasKey :: "Page \<Rightarrow> int64 \<Rightarrow> nat \<Rightarrow> nat \<Rightarrow> error + bool" where
  "hasKey leafPage key numKeys i =
     (if i < numKeys then
        (case Uint64 leafPage (headerSize + i * 16) of
           Inl e \<Rightarrow> Inl e
         | Inr k \<Rightarrow> if k = key then Inr True else hasKey leafPage key numKeys (i + 1))
      else Inr False)"
  by pat_completeness auto
termination
  by (relation "measure (\<lambda>(leafPage, key, numKeys, i). numKeys - i)") auto

declare hasKey.simps [simp del]

text \<open>The search for the position of the new entry in \<^verbatim>\<open>insertIntoLeaf\<close>.\<close>

function leafInsertIndex :: "Page \<Rightarrow> int64 \<Rightarrow> nat \<Rightarrow> nat \<Rightarrow> error + nat" where
  "leafInsertIndex page key numKeys insertIndex =
     (if insertIndex < numKeys then
        (case Uint64 page (headerSize + insertIndex * 16) of
           Inl e \<Rightarrow> Inl e
         | Inr k \<Rightarrow>
             if k <s key then leafInsertIndex page key numKeys (insertIndex + 1)
             else Inr insertIndex)
      else Inr insertIndex)"
  by pat_completeness auto
termination
  by (relation "measure (\<lambda>(page, key, numKeys, insertIndex). numKeys - insertIndex)") auto

declare leafInsertIndex.simps [simp del]

definition insertIntoLeaf :: "Page \<Rightarrow> int64 \<Rightarrow> int64 \<Rightarrow> error + Page" where
  "insertIntoLeaf page key value =
     (let numKeys = getNumKeys page
      in case leafInsertIndex page key numKeys 0 of
           Inl e \<Rightarrow> Inl e
         | Inr insertIndex \<Rightarrow>
             (case copyWithin page (headerSize + (insertIndex + 1) * 16)
                     (headerSize + insertIndex * 16) (headerSize + numKeys * 16) of
                Inl e \<Rightarrow> Inl e
              | Inr page1 \<Rightarrow>
                  (case PutUint64 page1 (headerSize + insertIndex * 16) key of
                     Inl e \<Rightarrow> Inl e
                   | Inr page2 \<Rightarrow>
                       (case PutUint64 page2 (headerSize + insertIndex * 16 + 8) value of
                          Inl e \<Rightarrow> Inl e
                        | Inr page3 \<Rightarrow> Inr (setNumKeys page3 (numKeys + 1))))))"

subsection \<open>Splitting a leaf\<close>

text \<open>
  The loop of \<^verbatim>\<open>splitAndInsertLeaf\<close> that copies the entries of the full leaf, with the new
  entry put before the first larger key. The slices \<^verbatim>\<open>tempKeys\<close> and \<^verbatim>\<open>tempValues\<close>
  of the source grow together; they are one list of pairs here.
\<close>

function collectLeaf ::
  "Page \<Rightarrow> int64 \<Rightarrow> int64 \<Rightarrow> nat \<Rightarrow> nat \<Rightarrow> bool \<Rightarrow> (int64 \<times> int64) list
     \<Rightarrow> error + ((int64 \<times> int64) list \<times> bool)" where
  "collectLeaf oldPage key value numKeys i inserted temp =
     (if i < numKeys then
        (case Uint64 oldPage (headerSize + i * 16) of
           Inl e \<Rightarrow> Inl e
         | Inr currentKey \<Rightarrow>
             (case Uint64 oldPage (headerSize + i * 16 + 8) of
                Inl e \<Rightarrow> Inl e
              | Inr currentValue \<Rightarrow>
                  if \<not> inserted \<and> key <s currentKey
                  then collectLeaf oldPage key value numKeys (i + 1) True
                         (temp @ [(key, value), (currentKey, currentValue)])
                  else collectLeaf oldPage key value numKeys (i + 1) inserted
                         (temp @ [(currentKey, currentValue)])))
      else Inr (temp, inserted))"
  by pat_completeness auto
termination
  by (relation "measure (\<lambda>(oldPage, key, value, numKeys, i, inserted, temp). numKeys - i)") auto

declare collectLeaf.simps [simp del]

text \<open>The loops that write the entries of one half into a page, from entry \<open>i\<close> on.\<close>

fun writeEntries :: "Page \<Rightarrow> nat \<Rightarrow> (int64 \<times> int64) list \<Rightarrow> error + Page" where
  "writeEntries page i [] = Inr page"
| "writeEntries page i ((k, v) # rest) =
     (case PutUint64 page (headerSize + i * 16) k of
        Inl e \<Rightarrow> Inl e
      | Inr page1 \<Rightarrow>
          (case PutUint64 page1 (headerSize + i * 16 + 8) v of
             Inl e \<Rightarrow> Inl e
           | Inr page2 \<Rightarrow> writeEntries page2 (i + 1) rest))"

text \<open>
  \<^verbatim>\<open>splitAndInsertLeaf\<close> up to its two \<^verbatim>\<open>WritePage\<close> calls: the result is the new state and
  either the error, or the arguments of the call of \<^verbatim>\<open>insertIntoParent\<close> that follows (the
  parent's page id, the key to promote, the id of the new page). A negative capacity
  panics in \<^verbatim>\<open>make\<close>; a right half that is empty panics at \<^verbatim>\<open>tempKeys[splitPoint:]\<close>
  or at \<^verbatim>\<open>rightKeys[0]\<close>.
\<close>

definition splitLeaf ::
  "BPlusTree \<Rightarrow> PageID \<Rightarrow> Page \<Rightarrow> int64 \<Rightarrow> int64
     \<Rightarrow> BPlusTree \<times> (error + (PageID \<times> int64 \<times> PageID))" where
  "splitLeaf t oldPageID oldPage key value =
     (let (newPageID, pager1) = AllocatePage (pager t);
          t1 = t\<lparr>pager := pager1\<rparr>;
          newPage1 = setParentPageID (newPage[nodeTypeOffset := NodeTypeLeaf])
                       (getParentPageID oldPage);
          numKeys = getNumKeys oldPage
      in if degree t < 0 then (t1, Inl Panic)
         else case collectLeaf oldPage key value numKeys 0 False [] of
           Inl e \<Rightarrow> (t1, Inl e)
         | Inr (temp0, inserted) \<Rightarrow>
             let temp = (if \<not> inserted then temp0 @ [(key, value)] else temp0);
                 splitPoint = nat (degree t div 2);
                 left = take splitPoint temp;
                 right = drop splitPoint temp
             in (case right of
                   [] \<Rightarrow> (t1, Inl Panic)
                 | (keyToPromote, v0) # rest \<Rightarrow>
                     (case writeEntries (setNumKeys (clearPayload oldPage) (length left)) 0 left of
                        Inl e \<Rightarrow> (t1, Inl e)
                      | Inr oldPage1 \<Rightarrow>
                          (case writeEntries (setNumKeys newPage1 (length right)) 0 right of
                             Inl e \<Rightarrow> (t1, Inl e)
                           | Inr newPage2 \<Rightarrow>
                               let newPage3 = setNextLeafPageID newPage2 (getNextLeafPageID oldPage1);
                                   oldPage2 = setNextLeafPageID oldPage1 newPageID
                               in (case WritePage (pager t1) oldPageID oldPage2 of
                                     (pager2, Some err) \<Rightarrow> (t1\<lparr>pager := pager2\<rparr>, Inl err)
                                   | (pager2, None) \<Rightarrow>
                                       (case WritePage pager2 newPageID newPage3 of
                                          (pager3, Some err) \<Rightarrow> (t1\<lparr>pager := pager3\<rparr>, Inl err)
                                        | (pager3, None) \<Rightarrow>
                                            (t1\<lparr>pager := pager3\<rparr>,
                                             Inr (getParentPageID oldPage2, keyToPromote, newPageID))))))))"

subsection \<open>Inserting into the parent\<close>

text \<open>
  The first branch of \<^verbatim>\<open>insertIntoParent\<close> (lines 279 to 306): the split node was the root.
  The errors of the reads and writes of the two children are dropped, as in the source.
\<close>

definition newRoot :: "BPlusTree \<Rightarrow> PageID \<Rightarrow> int64 \<Rightarrow> PageID \<Rightarrow> BPlusTree \<times> error option" where
  "newRoot t leftChildID key rightChildID =
     (let (newRootPageID, pager1) = AllocatePage (pager t);
          newRootPage = newPage[nodeTypeOffset := NodeTypeInternal];
          newRootPage = setIsRoot newRootPage True;
          newRootPage = setParentPageID newRootPage (- 1);
          newRootPage = setNumKeys newRootPage 1;
          newRootPage = put64 newRootPage headerSize leftChildID;
          newRootPage = put64 newRootPage (headerSize + 8) key;
          newRootPage = put64 newRootPage (headerSize + 16) rightChildID;
          leftChildPage = fst (ReadPage pager1 leftChildID newPage);
          leftChildPage = setParentPageID (setIsRoot leftChildPage False) newRootPageID;
          pager2 = fst (WritePage pager1 leftChildID leftChildPage);
          rightChildPage = fst (ReadPage pager2 rightChildID newPage);
          rightChildPage = setParentPageID (setIsRoot rightChildPage False) newRootPageID;
          pager3 = fst (WritePage pager2 rightChildID rightChildPage)
      in case WritePage pager3 newRootPageID newRootPage of
           (pager4, Some err) \<Rightarrow> (t\<lparr>pager := pager4\<rparr>, Some err)
         | (pager4, None) \<Rightarrow> (t\<lparr>pager := pager4, rootPageID := newRootPageID\<rparr>, None))"

text \<open>
  The second branch (lines 314 to 333): the parent has room. The bytes from
  \<open>ptrStart + 16\<close> on are copied to \<open>ptrStart + 32\<close>, then the key and the pointer are written
  at \<open>keyStart\<close> and \<open>keyStart + 8\<close>.
\<close>

definition insertIntoInternal ::
  "BPlusTree \<Rightarrow> PageID \<Rightarrow> Page \<Rightarrow> nat \<Rightarrow> int64 \<Rightarrow> PageID \<Rightarrow> BPlusTree \<times> error option" where
  "insertIntoInternal t parentPageID parentPage numKeys key rightChildID =
     (case separatorIndex parentPage key numKeys 0 of
        Inl e \<Rightarrow> (t, Some e)
      | Inr insertIndex \<Rightarrow>
          let keyStart = headerSize + insertIndex * 16 + 8;
              ptrStart = keyStart - 8
          in (case copyWithin parentPage (ptrStart + 32) (ptrStart + 16) (length parentPage) of
                Inl e \<Rightarrow> (t, Some e)
              | Inr page1 \<Rightarrow>
                  (case PutUint64 page1 keyStart key of
                     Inl e \<Rightarrow> (t, Some e)
                   | Inr page2 \<Rightarrow>
                       (case PutUint64 page2 (keyStart + 8) rightChildID of
                          Inl e \<Rightarrow> (t, Some e)
                        | Inr page3 \<Rightarrow>
                            (case WritePage (pager t) parentPageID (setNumKeys page3 (numKeys + 1)) of
                               (pager1, err) \<Rightarrow> (t\<lparr>pager := pager1\<rparr>, err))))))"

text \<open>
  The third branch (lines 335 to 402): the parent is full and is split. First the loop that
  copies its keys and pointers, the search for the position of the new key in the copy,
  the loop that writes one half into a page, and the loop that rewrites the parent field
  of the children that moved (whose errors are dropped).
\<close>

function collectInternal ::
  "Page \<Rightarrow> nat \<Rightarrow> nat \<Rightarrow> int64 list \<Rightarrow> PageID list \<Rightarrow> error + (int64 list \<times> PageID list)" where
  "collectInternal parentPage numKeys i tempKeys tempPointers =
     (if i < numKeys then
        (case Uint64 parentPage (headerSize + i * 16 + 8) of
           Inl e \<Rightarrow> Inl e
         | Inr k \<Rightarrow>
             (case Uint64 parentPage (headerSize + i * 16 + 8 + 8) of
                Inl e \<Rightarrow> Inl e
              | Inr p \<Rightarrow>
                  collectInternal parentPage numKeys (i + 1) (tempKeys @ [k]) (tempPointers @ [p])))
      else Inr (tempKeys, tempPointers))"
  by pat_completeness auto
termination
  by (relation "measure (\<lambda>(parentPage, numKeys, i, tempKeys, tempPointers). numKeys - i)") auto

declare collectInternal.simps [simp del]

function spliceIndex :: "int64 list \<Rightarrow> int64 \<Rightarrow> nat \<Rightarrow> nat" where
  "spliceIndex tempKeys key insertIndex =
     (if insertIndex < length tempKeys \<and> tempKeys ! insertIndex <s key
      then spliceIndex tempKeys key (insertIndex + 1)
      else insertIndex)"
  by pat_completeness auto
termination
  by (relation "measure (\<lambda>(tempKeys, key, insertIndex). length tempKeys - insertIndex)") auto

declare spliceIndex.simps [simp del]

fun writeInternal :: "Page \<Rightarrow> nat \<Rightarrow> int64 list \<Rightarrow> PageID list \<Rightarrow> error + Page" where
  "writeInternal page i [] pointers = Inr page"
| "writeInternal page i (k # keys) pointers =
     (case PutUint64 page (headerSize + i * 16 + 8) k of
        Inl e \<Rightarrow> Inl e
      | Inr page1 \<Rightarrow>
          if i + 1 < length pointers then
            (case PutUint64 page1 (headerSize + i * 16 + 8 + 8) (pointers ! (i + 1)) of
               Inl e \<Rightarrow> Inl e
             | Inr page2 \<Rightarrow> writeInternal page2 (i + 1) keys pointers)
          else Inl Panic)"

fun reparentChildren :: "Pager \<Rightarrow> PageID list \<Rightarrow> PageID \<Rightarrow> Pager" where
  "reparentChildren p [] newPageID = p"
| "reparentChildren p (childPageID # rest) newPageID =
     (let childPage = fst (ReadPage p childPageID newPage);
          childPage = setParentPageID childPage newPageID
      in reparentChildren (fst (WritePage p childPageID childPage)) rest newPageID)"

text \<open>
  The split itself, up to the two \<^verbatim>\<open>WritePage\<close> calls: the new state and either the error,
  or the arguments of the recursive call (the grandparent's page id, the key promoted
  again, the id of the new page). \<^verbatim>\<open>tempKeys[splitPoint]\<close> panics when the copy has no
  such index.
\<close>

definition splitInternal ::
  "BPlusTree \<Rightarrow> PageID \<Rightarrow> Page \<Rightarrow> nat \<Rightarrow> int64 \<Rightarrow> PageID
     \<Rightarrow> BPlusTree \<times> (error + (PageID \<times> int64 \<times> PageID))" where
  "splitInternal t parentPageID parentPage numKeys key rightChildID =
     (let (newPageID, pager1) = AllocatePage (pager t);
          t1 = t\<lparr>pager := pager1\<rparr>;
          newPage1 = setParentPageID (newPage[nodeTypeOffset := NodeTypeInternal])
                       (getParentPageID parentPage)
      in if degree t < 0 then (t1, Inl Panic)
         else case collectInternal parentPage numKeys 0 [] [get64 parentPage headerSize] of
           Inl e \<Rightarrow> (t1, Inl e)
         | Inr (tempKeys0, tempPointers0) \<Rightarrow>
             let insertIndex = spliceIndex tempKeys0 key 0;
                 tempKeys = take insertIndex tempKeys0 @ [key] @ drop insertIndex tempKeys0;
                 tempPointers = take (insertIndex + 1) tempPointers0 @ [rightChildID]
                                  @ drop (insertIndex + 1) tempPointers0;
                 splitPoint = nat (degree t div 2)
             in if length tempKeys \<le> splitPoint then (t1, Inl Panic)
                else
                  let keyToPromoteAgain = tempKeys ! splitPoint;
                      leftKeys = take splitPoint tempKeys;
                      rightKeys = drop (splitPoint + 1) tempKeys;
                      leftPointers = take (splitPoint + 1) tempPointers;
                      rightPointers = drop (splitPoint + 1) tempPointers;
                      parentPage1 = setNumKeys (clearPayload parentPage) (length leftKeys);
                      parentPage2 = put64 parentPage1 headerSize (leftPointers ! 0)
                  in (case writeInternal parentPage2 0 leftKeys leftPointers of
                        Inl e \<Rightarrow> (t1, Inl e)
                      | Inr parentPage3 \<Rightarrow>
                          let newPage2 = setNumKeys newPage1 (length rightKeys);
                              newPage3 = put64 newPage2 headerSize (rightPointers ! 0)
                          in (case writeInternal newPage3 0 rightKeys rightPointers of
                                Inl e \<Rightarrow> (t1, Inl e)
                              | Inr newPage4 \<Rightarrow>
                                  let pager2 = reparentChildren (pager t1) rightPointers newPageID
                                  in (case WritePage pager2 parentPageID parentPage3 of
                                        (pager3, Some err) \<Rightarrow> (t1\<lparr>pager := pager3\<rparr>, Inl err)
                                      | (pager3, None) \<Rightarrow>
                                          (case WritePage pager3 newPageID newPage4 of
                                             (pager4, Some err) \<Rightarrow> (t1\<lparr>pager := pager4\<rparr>, Inl err)
                                           | (pager4, None) \<Rightarrow>
                                               (t1\<lparr>pager := pager4\<rparr>,
                                                Inr (getParentPageID parentPage3, keyToPromoteAgain,
                                                     newPageID)))))))"

text \<open>
  \<^verbatim>\<open>insertIntoParent\<close>. The recursion follows the parent fields stored in the file and has
  no bound of its own: \<open>None\<close> is the call that does not return.
\<close>

partial_function (option) insertIntoParent ::
  "BPlusTree \<Rightarrow> PageID \<Rightarrow> PageID \<Rightarrow> int64 \<Rightarrow> PageID \<Rightarrow> (BPlusTree \<times> error option) option" where
  "insertIntoParent t parentPageID leftChildID key rightChildID =
     (if parentPageID = - 1 then Some (newRoot t leftChildID key rightChildID)
      else (case ReadPage (pager t) parentPageID newPage of
              (parentPage, Some err) \<Rightarrow> Some (t, Some err)
            | (parentPage, None) \<Rightarrow>
                let numKeys = getNumKeys parentPage
                in if int numKeys < degree t - 1
                   then Some (insertIntoInternal t parentPageID parentPage numKeys key rightChildID)
                   else (case splitInternal t parentPageID parentPage numKeys key rightChildID of
                           (t', Inl err) \<Rightarrow> Some (t', Some err)
                         | (t', Inr (grandParentID, keyToPromoteAgain, newPageID)) \<Rightarrow>
                             insertIntoParent t' grandParentID parentPageID keyToPromoteAgain
                               newPageID)))"

definition splitAndInsertLeaf ::
  "BPlusTree \<Rightarrow> PageID \<Rightarrow> Page \<Rightarrow> int64 \<Rightarrow> int64 \<Rightarrow> (BPlusTree \<times> error option) option" where
  "splitAndInsertLeaf t oldPageID oldPage key value =
     (case splitLeaf t oldPageID oldPage key value of
        (t', Inl err) \<Rightarrow> Some (t', Some err)
      | (t', Inr (parentPageID, keyToPromote, newPageID)) \<Rightarrow>
          insertIntoParent t' parentPageID oldPageID keyToPromote newPageID)"

text \<open>
  \<^verbatim>\<open>Insert\<close> returns the new state of the tree and the error, if any; \<open>None\<close> is the call
  that does not return.
\<close>

definition Insert :: "BPlusTree \<Rightarrow> int64 \<Rightarrow> int64 \<Rightarrow> (BPlusTree \<times> error option) option" where
  "Insert t key value =
     (case findLeafPage t key of
        None \<Rightarrow> None
      | Some (Inl err) \<Rightarrow> Some (t, Some err)
      | Some (Inr leafPageID) \<Rightarrow>
          (case ReadPage (pager t) leafPageID newPage of
             (leafPage, Some err) \<Rightarrow> Some (t, Some err)
           | (leafPage, None) \<Rightarrow>
               let numKeys = getNumKeys leafPage
               in (case hasKey leafPage key numKeys 0 of
                     Inl e \<Rightarrow> Some (t, Some e)
                   | Inr True \<Rightarrow> Some (t, Some (DuplicateKey key))
                   | Inr False \<Rightarrow>
                       if int numKeys < degree t - 1 then
                         (case insertIntoLeaf leafPage key value of
                            Inl e \<Rightarrow> Some (t, Some e)
                          | Inr leafPage' \<Rightarrow>
                              (case WritePage (pager t) leafPageID leafPage' of
                                 (pager1, err) \<Rightarrow> Some (t\<lparr>pager := pager1\<rparr>, err)))
                       else splitAndInsertLeaf t leafPageID leafPage key value)))"

section \<open>Reading the file: pages, slots and nodes\<close>

text \<open>
  The payload of a page is read and written eight bytes at a time, at the offsets
  \<open>headerSize + 8 * m\<close>: slot \<open>m\<close>. A leaf keeps entry \<open>i\<close> in the slots \<open>2 * i\<close> (key)
  and \<open>2 * i + 1\<close> (record offset); an internal page keeps the child pointer \<open>P\<^sub>i\<close> in slot
  \<open>2 * i\<close> and the separator \<open>K\<^sub>i\<^sub>+\<^sub>1\<close> in slot \<open>2 * i + 1\<close>. These are the readings that
  \<^verbatim>\<open>visualizeIndexFile\<close> prints.
\<close>

definition slot :: "Page \<Rightarrow> nat \<Rightarrow> int64" where
  "slot page m = get64 page (headerSize + 8 * m)"

definition leafEntries :: "Page \<Rightarrow> (int64 \<times> int64) list" where
  "leafEntries page = map (\<lambda>i. (slot page (2 * i), slot page (2 * i + 1))) [0..<getNumKeys page]"

definition internalKeys :: "Page \<Rightarrow> int64 list" where
  "internalKeys page = map (\<lambda>i. slot page (2 * i + 1)) [0..<getNumKeys page]"

definition internalPointers :: "Page \<Rightarrow> PageID list" where
  "internalPointers page = map (\<lambda>i. slot page (2 * i)) [0..<getNumKeys page + 1]"

text \<open>The page with number \<open>i\<close> of a file.\<close>

definition pageAt :: "Pager \<Rightarrow> nat \<Rightarrow> Page" where
  "pageAt p i = take PageSize (drop (PageSize * i) (file' p))"

text \<open>
  A pager over a file that consists of the whole pages \<open>pages\<close>, with its counters at
  \<open>k\<close> pages (after \<^verbatim>\<open>AllocatePage\<close> the counters are ahead of the file).
\<close>

definition pagerOf :: "Page list \<Rightarrow> nat \<Rightarrow> Pager" where
  "pagerOf pages k =
     \<lparr>file' = concat pages, fileSize = word_of_nat (PageSize * k), numPages = word_of_nat k\<rparr>"

text \<open>Every page of the list has the size of a page.\<close>

definition wholePages :: "Page list \<Rightarrow> bool" where
  "wholePages pages \<longleftrightarrow> list_all (\<lambda>page. length page = PageSize) pages"

text \<open>
  The fields of a page, decoded: the two flag bytes, the parent, the key count and the
  next-leaf pointer of the header, the reserved bytes, and the slots of the payload
  (those after the last one listed are zero).
\<close>

record node =
  nType :: byte
  nRoot :: byte
  nRes1 :: "byte list"
  nParent :: int64
  nNum :: nat
  nRes2 :: "byte list"
  nNext :: int64
  nSlots :: "int64 list"

definition pad :: "nat \<Rightarrow> 'a::zero list \<Rightarrow> 'a list" where
  "pad n xs = take n (xs @ replicate n 0)"

definition encWords :: "int64 list \<Rightarrow> byte list" where
  "encWords ws = concat (map (le_enc 8) ws)"

definition encHeader :: "node \<Rightarrow> byte list" where
  "encHeader n =
     [nType n, nRoot n] @ pad 6 (nRes1 n) @ le_enc 8 (nParent n)
       @ le_enc 2 (word_of_nat (nNum n)) @ pad 6 (nRes2 n) @ le_enc 8 (nNext n)"

definition encPage :: "node \<Rightarrow> Page" where
  "encPage n = encHeader n @ encWords (pad 508 (nSlots n))"

definition decPage :: "Page \<Rightarrow> node" where
  "decPage page =
     \<lparr>nType = page ! 0, nRoot = page ! 1, nRes1 = take 6 (drop 2 page),
      nParent = getParentPageID page, nNum = getNumKeys page, nRes2 = take 6 (drop 18 page),
      nNext = getNextLeafPageID page, nSlots = map (slot page) [0..<508]\<rparr>"

text \<open>Slot \<open>m\<close> of a list of slots, and the list with slot \<open>m\<close> set.\<close>

definition slotAt :: "int64 list \<Rightarrow> nat \<Rightarrow> int64" where
  "slotAt ws m = (if m < length ws then ws ! m else 0)"

definition putSlot :: "int64 list \<Rightarrow> nat \<Rightarrow> int64 \<Rightarrow> int64 list" where
  "putSlot ws m v = (if m < length ws then ws[m := v] else ws @ replicate (m - length ws) 0 @ [v])"

text \<open>
  The slots after \<^verbatim>\<open>copy\<close> has moved the slots from \<open>s\<close> up to \<open>e\<close> to the slots from
  \<open>d\<close> on (as far as the page reaches).
\<close>

definition copySlots :: "int64 list \<Rightarrow> nat \<Rightarrow> nat \<Rightarrow> nat \<Rightarrow> int64 list" where
  "copySlots ws d s e =
     map (\<lambda>m. if d \<le> m \<and> m < d + (e - s) then slotAt ws (m - d + s) else slotAt ws m)
       [0..<min 508 (max (length ws) (d + (length ws - s)))]"

section \<open>The sequences that a split divides\<close>

text \<open>
  The entries of a full leaf with a new entry put before the first entry whose key is
  larger, and the slots that a list of entries occupies in a leaf.
\<close>

fun insertEntry :: "int64 \<times> int64 \<Rightarrow> (int64 \<times> int64) list \<Rightarrow> (int64 \<times> int64) list" where
  "insertEntry e [] = [e]"
| "insertEntry e (x # xs) = (if fst e <s fst x then e # x # xs else x # insertEntry e xs)"

definition flatEntries :: "(int64 \<times> int64) list \<Rightarrow> int64 list" where
  "flatEntries es = concat (map (\<lambda>(k, v). [k, v]) es)"

section \<open>A run with degree 3\<close>

text \<open>
  The states of one run of the program, written down page by page: a page is given by the
  fields of its header and the slots of its payload that are in use, a tree by its pages,
  its root and its degree. The run starts from an empty file and inserts the keys 30, 20,
  10, 5 and 1 (with the offsets 300, 200, 100, 50 and 10).
\<close>

definition mkNode :: "byte \<Rightarrow> byte \<Rightarrow> int64 \<Rightarrow> nat \<Rightarrow> int64 \<Rightarrow> int64 list \<Rightarrow> node" where
  "mkNode ty root parent num next slots =
     \<lparr>nType = ty, nRoot = root, nRes1 = [], nParent = parent, nNum = num, nRes2 = [],
      nNext = next, nSlots = slots\<rparr>"

definition mkTree :: "node list \<Rightarrow> nat \<Rightarrow> PageID \<Rightarrow> int \<Rightarrow> BPlusTree" where
  "mkTree nodes k root d =
     \<lparr>pager = pagerOf (map encPage nodes) k, rootPageID = root, degree = d\<rparr>"

text \<open>After construction: the empty root leaf.\<close>

definition demo0 :: BPlusTree where
  "demo0 = mkTree [mkNode 0 1 (- 1) 0 (- 1) []] 1 0 3"

text \<open>After the keys 30 and 20: one leaf with two entries.\<close>

definition demo1 :: BPlusTree where
  "demo1 = mkTree [mkNode 0 1 (- 1) 1 (- 1) [30, 300]] 1 0 3"

definition demo2 :: BPlusTree where
  "demo2 = mkTree [mkNode 0 1 (- 1) 2 (- 1) [20, 200, 30, 300]] 1 0 3"

text \<open>
  After the key 10: the leaf has split into the pages 0 and 1, and page 2 is the new
  root, with the separator 20.
\<close>

definition demo3 :: BPlusTree where
  "demo3 = mkTree [mkNode 0 0 2 1 1 [10, 100],
                   mkNode 0 0 2 2 (- 1) [20, 200, 30, 300],
                   mkNode 1 1 (- 1) 1 0 [0, 20, 1]] 3 2 3"

text \<open>After the key 5: page 0 holds 5 and 10.\<close>

definition demo4 :: BPlusTree where
  "demo4 = mkTree [mkNode 0 0 2 2 1 [5, 50, 10, 100],
                   mkNode 0 0 2 2 (- 1) [20, 200, 30, 300],
                   mkNode 1 1 (- 1) 1 0 [0, 20, 1]] 3 2 3"

text \<open>The pages of the file of \<open>demo4\<close>.\<close>

definition demo4pages :: "Page list" where
  "demo4pages = map encPage [mkNode 0 0 2 2 1 [5, 50, 10, 100],
                             mkNode 0 0 2 2 (- 1) [20, 200, 30, 300],
                             mkNode 1 1 (- 1) 1 0 [0, 20, 1]]"

text \<open>
  While the key 1 is inserted: page 0 has split into the pages 0 and 3, and the key 5 is
  about to be inserted into the parent, page 2.
\<close>

definition demo4split :: BPlusTree where
  "demo4split = mkTree [mkNode 0 0 2 1 3 [1, 10],
                        mkNode 0 0 2 2 (- 1) [20, 200, 30, 300],
                        mkNode 1 1 (- 1) 1 0 [0, 20, 1],
                        mkNode 0 0 2 2 1 [5, 50, 10, 100]] 4 2 3"

text \<open>After the key 1: the root, page 2, holds the slots 0, 5, 3, 0, 1.\<close>

definition demo5 :: BPlusTree where
  "demo5 = mkTree [mkNode 0 0 2 1 3 [1, 10],
                   mkNode 0 0 2 2 (- 1) [20, 200, 30, 300],
                   mkNode 1 1 (- 1) 2 0 [0, 5, 3, 0, 1],
                   mkNode 0 0 2 2 1 [5, 50, 10, 100]] 4 2 3"

text \<open>The tree that \<^verbatim>\<open>NewBPlusTree\<close> builds on the file of \<open>demo3\<close>: its root is page 0.\<close>

definition demo3reopened :: BPlusTree where
  "demo3reopened = demo3\<lparr>rootPageID := 0\<rparr>"

section \<open>Facts about the pager\<close>

lemma dvd_uint_mult: "4096 dvd uint (a * 4096 :: int64)"
proof -
  have "uint (a * 4096 :: int64) = (uint a * 4096) mod 2 ^ 64"
    by (simp add: uint_word_ariths)
  moreover have "(4096::int) dvd 2 ^ 64" by simp
  ultimately show ?thesis
    by (metis dvd_mod dvd_triv_right)
qed

lemma sint_eq_uint_minus: "sint (w :: int64) = uint w - 2 ^ 64 * of_bool (bit (uint w) 63)"
proof -
  have "uint w < 2 ^ 64" using uint_bounded [of w] by simp
  then have "take_bit 64 (uint w) = uint w" by (simp add: take_bit_eq_mod)
  then show ?thesis
    by (simp add: sint_uint signed_take_bit_eq_take_bit_minus)
qed

lemma dvd_sint_mult: "4096 dvd sint (a * 4096 :: int64)"
proof -
  have "(4096::int) dvd 2 ^ 64 * of_bool (bit (uint (a * 4096 :: int64)) 63)" by simp
  then show ?thesis
    unfolding sint_eq_uint_minus using dvd_uint_mult [of a] by (rule_tac dvd_diff)
qed

lemma go_div_exact:
  assumes "4096 dvd sint (w :: int64)"
  shows "go_div w 4096 * 4096 = w"
proof -
  from assms obtain q where q: "sint w = 4096 * q" by (auto simp: dvd_def)
  have "sint w sdiv 4096 = q"
    by (simp add: q signed_divide_int_eq_divide_int)
  then have "go_div w 4096 = word_of_int q"
    by (simp add: go_div_def)
  then have "go_div w 4096 * 4096 = word_of_int (q * 4096)" by simp
  also have "\<dots> = word_of_int (sint w)" by (simp add: q mult.commute)
  finally show ?thesis by simp
qed

lemma sizeInv_AllocatePage: "sizeInv p \<Longrightarrow> sizeInv (snd (AllocatePage p))"
  by (simp add: sizeInv_def AllocatePage_def PageSize_def algebra_simps)

lemma sizeInv_WritePage: "sizeInv p \<Longrightarrow> sizeInv (fst (WritePage p pageID pageData))"
proof -
  assume inv: "sizeInv p"
  have e: "pageID * 4096 + 4096 = (pageID + 1) * (4096 :: int64)" by (simp add: algebra_simps)
  have "go_div (pageID * 4096 + 4096) 4096 * 4096 = pageID * 4096 + (4096 :: int64)"
    unfolding e by (rule go_div_exact) (rule dvd_sint_mult)
  with inv show ?thesis
    by (simp add: sizeInv_def WritePage_def PageSize_def Let_def split: prod.splits option.splits)
qed


lemma sint_of_nat_small: "n < 2 ^ 63 \<Longrightarrow> sint (word_of_nat n :: int64) = int n"
proof -
  assume "n < 2 ^ 63"
  then have "int n < 2 ^ 63" by (metis of_nat_less_iff of_nat_numeral of_nat_power)
  then show ?thesis
    by (simp add: signed_of_nat signed_take_bit_int_eq_self)
qed

lemma sizeInv_NewPager:
  assumes "length f < 2 ^ 63"
  shows "sizeInv (NewPager f) \<longleftrightarrow> PageSize dvd length f"
proof -
  let ?n = "length f"
  have s: "sint (word_of_nat ?n :: int64) = int ?n" using assms by (rule sint_of_nat_small)
  have d: "int ?n sdiv 4096 = int (?n div 4096)"
    by (simp add: signed_divide_int_eq_divide_int zdiv_int)
  have "go_div (word_of_nat ?n) 4096 = (word_of_nat (?n div 4096) :: int64)"
    by (simp add: go_div_def s d)
  moreover have "(word_of_nat (?n div 4096) :: int64) * 4096 = word_of_nat (?n div 4096 * 4096)"
    by simp
  ultimately have "sizeInv (NewPager f) \<longleftrightarrow> (word_of_nat ?n :: int64) = word_of_nat (?n div 4096 * 4096)"
    by (simp only: sizeInv_def NewPager_def PageSize_def Let_def Pager.simps of_nat_numeral)
  also have "\<dots> \<longleftrightarrow> ?n = ?n div 4096 * 4096"
  proof -
    have "?n div 4096 * 4096 \<le> ?n" by simp
    with assms have "?n div 4096 * 4096 < 2 ^ 64" "?n < 2 ^ 64" by simp_all
    then have "take_bit 64 (?n div 4096 * 4096) = ?n div 4096 * 4096" "take_bit 64 ?n = ?n"
      by (simp_all only: take_bit_nat_eq_self)
    moreover have "(word_of_nat a :: int64) = word_of_nat b \<longleftrightarrow> take_bit 64 a = take_bit 64 b" for a b
      by (simp add: word_of_nat_eq_iff)
    ultimately show ?thesis
      by (simp only:)
  qed
  also have "\<dots> \<longleftrightarrow> 4096 dvd ?n" by (metis dvd_div_mult_self dvd_triv_right)
  finally show ?thesis by (simp add: PageSize_def)
qed

text \<open>
  Claim C10. The pager keeps \<open>fileSize = numPages * PageSize\<close> (in the arithmetic of
  \<^verbatim>\<open>int64\<close>): \<^verbatim>\<open>NewPager\<close> establishes it exactly when the length of the opened file
  is a multiple of \<open>PageSize\<close>, and every \<^verbatim>\<open>AllocatePage\<close> and every
  \<^verbatim>\<open>WritePage\<close> (also one that extends the file, and one that fails) preserves it.
\<close>

theorem pager_size_invariant:
  "(length f < 2 ^ 63 \<longrightarrow> (sizeInv (NewPager f) \<longleftrightarrow> PageSize dvd length f))
   \<and> (sizeInv p \<longrightarrow> sizeInv (snd (AllocatePage p)))
   \<and> (sizeInv p \<longrightarrow> sizeInv (fst (WritePage p pageID pageData)))"
  using sizeInv_NewPager sizeInv_AllocatePage sizeInv_WritePage by blast

theorem pager_size_invariant_witness:
  "length (replicate 8192 (0::byte)) < 2 ^ 63
   \<and> sizeInv (NewPager (replicate 8192 0))
   \<and> sizeInv (snd (AllocatePage (NewPager (replicate 8192 0))))
   \<and> sizeInv (fst (WritePage (NewPager (replicate 8192 0)) 2 (replicate PageSize 0)))"
  using pager_size_invariant [of "replicate 8192 0" "NewPager (replicate 8192 0)" 2 "replicate PageSize 0"]
  by (simp add: PageSize_def)

lemma ReadAt_not_past_end: "snd (ReadAt f b off) \<noteq> Some (ReadPastEnd pageID)"
  by (simp add: ReadAt_def Let_def)

lemma sint_page_offset:
  assumes "0 \<le> sint (pageID :: int64)" "sint pageID < 2 ^ 51"
  shows "sint (pageID * 4096) = sint pageID * 4096"
proof -
  have "sint (pageID * 4096) = signed_take_bit 63 (sint pageID * 4096)"
    by (simp add: sint_word_ariths)
  also have "\<dots> = sint pageID * 4096"
    using assms by (intro signed_take_bit_int_eq_self) auto
  finally show ?thesis .
qed

text \<open>
  Claim C9, as amended. \<^verbatim>\<open>ReadPage\<close> returns the read-past-end error exactly when the
  offset it computes, the \<^verbatim>\<open>int64\<close> product \<open>pageID * PageSize\<close>, is at least the
  tracked \<open>fileSize\<close>, and it then returns the buffer untouched. For a page id from 0
  up to \<open>2^51 - 1\<close> that product is the exact one, and when moreover
  \<open>fileSize = numPages * PageSize\<close> holds the error is returned exactly for the page ids
  \<open>\<ge> numPages\<close>.
\<close>

theorem ReadPage_past_end:
  "(snd (ReadPage p pageID pageData) = Some (ReadPastEnd pageID)
      \<longleftrightarrow> sint (fileSize p) \<le> sint (pageID * word_of_nat PageSize))
   \<and> (snd (ReadPage p pageID pageData) = Some (ReadPastEnd pageID)
      \<longrightarrow> fst (ReadPage p pageID pageData) = pageData)
   \<and> (0 \<le> sint pageID \<and> sint pageID < 2 ^ 51
      \<longrightarrow> sint (pageID * word_of_nat PageSize) = sint pageID * int PageSize)
   \<and> (0 \<le> sint pageID \<and> sint pageID < 2 ^ 51 \<and> sint (fileSize p) = sint (numPages p) * int PageSize
      \<longrightarrow> (snd (ReadPage p pageID pageData) = Some (ReadPastEnd pageID)
            \<longleftrightarrow> sint (numPages p) \<le> sint pageID))"
proof -
  have a: "snd (ReadPage p pageID pageData) = Some (ReadPastEnd pageID)
      \<longleftrightarrow> sint (fileSize p) \<le> sint (pageID * word_of_nat PageSize)"
    using ReadAt_not_past_end by (simp add: ReadPage_def Let_def word_sle_eq)
  have b: "snd (ReadPage p pageID pageData) = Some (ReadPastEnd pageID)
      \<Longrightarrow> fst (ReadPage p pageID pageData) = pageData"
    unfolding a by (simp add: ReadPage_def Let_def word_sle_eq)
  have c: "0 \<le> sint pageID \<and> sint pageID < 2 ^ 51
      \<Longrightarrow> sint (pageID * word_of_nat PageSize) = sint pageID * int PageSize"
    using sint_page_offset by (simp add: PageSize_def)
  have d: "0 \<le> sint pageID \<and> sint pageID < 2 ^ 51 \<and> sint (fileSize p) = sint (numPages p) * int PageSize
      \<Longrightarrow> (snd (ReadPage p pageID pageData) = Some (ReadPastEnd pageID)
            \<longleftrightarrow> sint (numPages p) \<le> sint pageID)"
    unfolding a using c by (simp add: PageSize_def)
  show ?thesis
    using a b c d by blast
qed

theorem ReadPage_past_end_witness:
  "snd (ReadPage \<lparr>file' = replicate 8192 0, fileSize = 8192, numPages = 2\<rparr> 2 (replicate PageSize 0))
     = Some (ReadPastEnd 2)
   \<and> fst (ReadPage \<lparr>file' = replicate 8192 0, fileSize = 8192, numPages = 2\<rparr> 2 (replicate PageSize 0))
     = replicate PageSize 0
   \<and> sint (2 * word_of_nat PageSize :: int64) = sint (2 :: int64) * int PageSize
   \<and> snd (ReadPage \<lparr>file' = replicate 8192 0, fileSize = 8192, numPages = 2\<rparr> 1 (replicate PageSize 0))
     \<noteq> Some (ReadPastEnd 1)"
  using ReadPage_past_end [of "\<lparr>file' = replicate 8192 0, fileSize = 8192, numPages = 2\<rparr>" 2 "replicate PageSize 0"]
    ReadPage_past_end [of "\<lparr>file' = replicate 8192 0, fileSize = 8192, numPages = 2\<rparr>" 1 "replicate PageSize 0"]
  by (simp add: PageSize_def)

text \<open>
  The claim C9 as it is written fails twice. A pager opened on a file of 5000 bytes tracks
  \<open>fileSize = 5000\<close> and \<open>numPages = 1\<close>; page id 1 is then \<open>\<ge> numPages\<close> and yet
  passes the check (its offset 4096 is below 5000). And the page id \<open>2^52\<close> has the offset
  \<open>2^64\<close>, which wraps to 0 and passes the check although the exact product is far
  beyond \<open>fileSize\<close>.
\<close>

theorem ReadPage_past_end_counterexample:
  "NewPager (replicate 5000 0) = \<lparr>file' = replicate 5000 0, fileSize = 5000, numPages = 1\<rparr>
   \<and> snd (ReadPage \<lparr>file' = replicate 5000 0, fileSize = 5000, numPages = 1\<rparr> 1 (replicate PageSize 0))
       \<noteq> Some (ReadPastEnd 1)
   \<and> sint (numPages \<lparr>file' = replicate 5000 0, fileSize = 5000, numPages = 1\<rparr>) \<le> sint (1 :: int64)
   \<and> snd (ReadPage \<lparr>file' = replicate 4096 0, fileSize = 4096, numPages = 1\<rparr> 4503599627370496
            (replicate PageSize 0))
       \<noteq> Some (ReadPastEnd 4503599627370496)
   \<and> sint (fileSize \<lparr>file' = replicate 4096 0, fileSize = 4096, numPages = 1\<rparr>)
       \<le> sint (4503599627370496 :: int64) * int PageSize"
  by (simp add: NewPager_def ReadPage_def ReadAt_def go_div_def PageSize_def Let_def word_sle_eq
      signed_divide_int_eq_divide_int)

section \<open>Facts about the encoding of pages\<close>

lemma length_le_enc [simp]: "length (le_enc n v) = n"
  by (induction n arbitrary: v) auto

lemma le_dec_enc: "le_dec (le_enc n v) = take_bit (8 * n) v"
proof (induction n arbitrary: v)
  case 0
  then show ?case by simp
next
  case (Suc n)
  have "(ucast (ucast v :: byte) :: int64) OR push_bit 8 (take_bit (8 * n) (drop_bit 8 v)) = take_bit (8 * Suc n) v"
    by (rule bit_eqI) (auto simp: bit_simps)
  with Suc show ?case by simp
qed

lemma le_dec_enc8 [simp]: "le_dec (le_enc 8 v) = v"
  by (simp add: le_dec_enc del: le_enc.simps take_bit_length_eq)
     (simp add: take_bit_word_eq_self)

lemma le_dec_replicate0 [simp]: "le_dec (replicate n 0) = 0"
  by (induction n) auto

lemma le_enc_0 [simp]: "le_enc n 0 = replicate n 0"
  by (induction n) auto


lemma le_dec_bound: "length bs \<le> 8 \<Longrightarrow> take_bit (8 * length bs) (le_dec bs) = le_dec bs"
proof (induction bs)
  case Nil
  then show ?case by simp
next
  case (Cons b bs)
  then have ih: "take_bit (8 * length bs) (le_dec bs) = le_dec bs" by simp
  have "take_bit (8 * Suc (length bs)) (ucast b OR push_bit 8 (take_bit (8 * length bs) (le_dec bs)) :: int64)
      = ucast b OR push_bit 8 (take_bit (8 * length bs) (le_dec bs))"
    by (rule bit_eqI) (auto simp: bit_simps dest: bit_imp_le_length)
  then show ?case
    by (simp add: ih)
qed

lemma le_enc_dec: "length bs \<le> 8 \<Longrightarrow> le_enc (length bs) (le_dec bs) = bs"
proof (induction bs)
  case Nil
  then show ?case by simp
next
  case (Cons b bs)
  then have ih: "le_enc (length bs) (le_dec bs) = bs" and len: "length bs < 8" by simp_all
  have b: "(ucast (ucast b OR push_bit 8 (le_dec bs) :: int64) :: byte) = b"
    by (rule bit_eqI) (auto simp: bit_simps)
  have tb: "take_bit (8 * length bs) (le_dec bs) = le_dec bs"
    using len by (intro le_dec_bound) simp
  have "drop_bit 8 (ucast b OR push_bit 8 (take_bit (8 * length bs) (le_dec bs)) :: int64)
      = take_bit (8 * length bs) (le_dec bs)"
    using len by - (rule bit_eqI, auto simp: bit_simps dest: bit_imp_le_length)
  then have d: "drop_bit 8 (ucast b OR push_bit 8 (le_dec bs) :: int64) = le_dec bs"
    by (simp add: tb)
  show ?case by (simp only: length_Cons le_dec.simps le_enc.simps b d ih)
qed

lemma length_encWords [simp]: "length (encWords ws) = 8 * length ws"
  by (induction ws) (simp_all add: encWords_def)

lemma encWords_Nil [simp]: "encWords [] = []"
  by (simp add: encWords_def)

lemma encWords_Cons: "encWords (w # ws) = le_enc 8 w @ encWords ws"
  by (simp add: encWords_def)

lemma encWords_append: "encWords (xs @ ys) = encWords xs @ encWords ys"
  by (simp add: encWords_def)

lemma take_encWords: "take (8 * m) (encWords ws) = encWords (take m ws)"
proof (induction ws arbitrary: m)
  case Nil
  then show ?case by simp
next
  case (Cons w ws)
  show ?case
  proof (cases m)
    case 0
    then show ?thesis by simp
  next
    case (Suc k)
    then show ?thesis
      using Cons [of k] by (simp add: encWords_Cons)
  qed
qed

lemma drop_encWords: "drop (8 * m) (encWords ws) = encWords (drop m ws)"
proof (induction ws arbitrary: m)
  case Nil
  then show ?case by simp
next
  case (Cons w ws)
  show ?case
  proof (cases m)
    case 0
    then show ?thesis by simp
  next
    case (Suc k)
    then show ?thesis
      using Cons [of k] by (simp add: encWords_Cons)
  qed
qed

lemma encWords_replicate0: "encWords (replicate n 0) = replicate (8 * n) 0"
  by (induction n) (simp_all add: encWords_Cons replicate_add del: le_enc.simps)

lemma length_pad [simp]: "length (pad n xs) = n"
  by (simp add: pad_def)

lemma nth_pad: "m < n \<Longrightarrow> pad n xs ! m = (if m < length xs then xs ! m else 0)"
  by (simp add: pad_def nth_append)

lemma pad_Nil: "pad n [] = replicate n 0"
  by (simp add: pad_def)

lemma nth_pad_slotAt: "m < n \<Longrightarrow> pad n ws ! m = slotAt ws m"
  by (simp add: nth_pad slotAt_def)

lemma pad_putSlot: "m < n \<Longrightarrow> (pad n ws)[m := v] = pad n (putSlot ws m v)"
  by (rule nth_equalityI) (auto simp: nth_pad putSlot_def nth_list_update nth_append)

lemma length_encHeader [simp]: "length (encHeader n) = 32"
  by (simp add: encHeader_def)

lemma length_encPage [simp]: "length (encPage n) = PageSize"
  by (simp add: encPage_def PageSize_def)

lemma take_header_encPage [simp]: "k \<le> 32 \<Longrightarrow> take k (encPage n) = take k (encHeader n)"
  by (simp add: encPage_def)

lemma drop32_encPage [simp]: "drop 32 (encPage n) = encWords (pad 508 (nSlots n))"
  by (simp add: encPage_def)

lemma isLeaf_encPage [simp]: "isLeaf (encPage n) \<longleftrightarrow> nType n = 0"
  by (simp add: isLeaf_def encPage_def encHeader_def)

lemma isRoot_encPage [simp]: "isRoot (encPage n) \<longleftrightarrow> nRoot n = 1"
  by (simp add: isRoot_def encPage_def encHeader_def)

lemma getParentPageID_encPage [simp]: "getParentPageID (encPage n) = nParent n"
  by (simp add: getParentPageID_def get64_def encPage_def encHeader_def)

lemma getNextLeafPageID_encPage [simp]: "getNextLeafPageID (encPage n) = nNext n"
  by (simp add: getNextLeafPageID_def get64_def encPage_def encHeader_def)

lemma unat_take_bit16_of_nat: "unat (take_bit 16 (word_of_nat k :: int64)) = k mod 65536"
proof -
  have "unat (take_bit 16 (word_of_nat k :: int64)) = take_bit 16 (take_bit 64 k)"
    by (simp add: unsigned_take_bit_eq unsigned_of_nat)
  also have "\<dots> = take_bit 16 k"
    by simp
  also have "\<dots> = k mod 65536"
    by (simp add: take_bit_eq_mod)
  finally show ?thesis .
qed

lemma getNumKeys_encPage [simp]: "getNumKeys (encPage n) = nNum n mod 65536"
  by (simp add: getNumKeys_def encPage_def encHeader_def le_dec_enc unat_take_bit16_of_nat
      del: le_enc.simps)

lemma encHeader_nSlots_update [simp]: "encHeader (n\<lparr>nSlots := ws\<rparr>) = encHeader n"
  by (simp add: encHeader_def)

lemma get64_encPage: "m < 508 \<Longrightarrow> get64 (encPage n) (32 + 8 * m) = slotAt (nSlots n) m"
proof -
  assume m: "m < 508"
  let ?P = "pad 508 (nSlots n)"
  have "drop (32 + 8 * m) (encPage n) = encWords (drop m ?P)"
    by (simp add: encPage_def drop_encWords)
  also have "drop m ?P = ?P ! m # drop (Suc m) ?P"
    using m by (simp add: Cons_nth_drop_Suc)
  finally have "take 8 (drop (32 + 8 * m) (encPage n)) = le_enc 8 (?P ! m)"
    by (simp add: encWords_Cons del: le_enc.simps)
  then show ?thesis
    using m by (simp add: get64_def nth_pad_slotAt del: le_enc.simps)
qed

lemma slot_encPage: "m < 508 \<Longrightarrow> slot (encPage n) m = slotAt (nSlots n) m"
  by (simp add: slot_def get64_encPage)

lemma Uint64_encPage:
  "32 \<le> off \<Longrightarrow> (off - 32) mod 8 = 0 \<Longrightarrow> off + 8 \<le> 4096
   \<Longrightarrow> Uint64 (encPage n) off = Inr (slotAt (nSlots n) ((off - 32) div 8))"
proof -
  assume a: "32 \<le> off" "(off - 32) mod 8 = 0" "off + 8 \<le> 4096"
  define m where "m = (off - 32) div 8"
  have off: "off = 32 + 8 * m" using a by (simp add: m_def) presburger
  have m: "m < 508" using a off by simp
  show ?thesis
    unfolding m_def [symmetric] using m by (simp add: Uint64_def off get64_encPage PageSize_def)
qed

lemma Uint64_encPage_Panic: "4096 < off + 8 \<Longrightarrow> Uint64 (encPage n) off = Inl Panic"
  by (simp add: Uint64_def PageSize_def)

lemma put64_encPage:
  "m < 508 \<Longrightarrow> put64 (encPage n) (32 + 8 * m) v = encPage (n\<lparr>nSlots := putSlot (nSlots n) m v\<rparr>)"
proof -
  assume m: "m < 508"
  let ?P = "pad 508 (nSlots n)"
  have e: "32 + 8 * m + 8 = 32 + 8 * Suc m" by simp
  have "put64 (encPage n) (32 + 8 * m) v
      = encHeader n @ encWords (take m ?P) @ le_enc 8 v @ encWords (drop (Suc m) ?P)"
    unfolding put64_def e
    by (simp add: encPage_def take_encWords drop_encWords del: le_enc.simps mult_Suc_right)
  also have "\<dots> = encHeader n @ encWords (take m ?P @ v # drop (Suc m) ?P)"
    by (simp add: encWords_append encWords_Cons del: le_enc.simps)
  also have "take m ?P @ v # drop (Suc m) ?P = ?P[m := v]"
    using m by (simp add: upd_conv_take_nth_drop)
  also have "\<dots> = pad 508 (putSlot (nSlots n) m v)"
    using m by (rule pad_putSlot)
  finally show ?thesis
    by (simp add: encPage_def)
qed

lemma PutUint64_encPage:
  "32 \<le> off \<Longrightarrow> (off - 32) mod 8 = 0 \<Longrightarrow> off + 8 \<le> 4096
   \<Longrightarrow> PutUint64 (encPage n) off v
       = Inr (encPage (n\<lparr>nSlots := putSlot (nSlots n) ((off - 32) div 8) v\<rparr>))"
proof -
  assume a: "32 \<le> off" "(off - 32) mod 8 = 0" "off + 8 \<le> 4096"
  define m where "m = (off - 32) div 8"
  have off: "off = 32 + 8 * m" using a by (simp add: m_def) presburger
  have m: "m < 508" using a off by simp
  show ?thesis
    unfolding m_def [symmetric] using m by (simp add: PutUint64_def off put64_encPage PageSize_def)
qed

lemma PutUint64_encPage_Panic: "4096 < off + 8 \<Longrightarrow> PutUint64 (encPage n) off v = Inl Panic"
  by (simp add: PutUint64_def PageSize_def)

lemma setParentPageID_encPage [simp]:
  "setParentPageID (encPage n) v = encPage (n\<lparr>nParent := v\<rparr>)"
  by (simp add: setParentPageID_def put64_def encPage_def encHeader_def del: le_enc.simps)

lemma setNextLeafPageID_encPage [simp]:
  "setNextLeafPageID (encPage n) v = encPage (n\<lparr>nNext := v\<rparr>)"
  by (simp add: setNextLeafPageID_def put64_def encPage_def encHeader_def del: le_enc.simps)

lemma setNumKeys_encPage [simp]:
  "setNumKeys (encPage n) k = encPage (n\<lparr>nNum := k\<rparr>)"
  by (simp add: setNumKeys_def encPage_def encHeader_def del: le_enc.simps)

lemma setIsRoot_encPage [simp]:
  "setIsRoot (encPage n) b = encPage (n\<lparr>nRoot := (if b then 1 else 0)\<rparr>)"
  by (simp add: setIsRoot_def encPage_def encHeader_def del: le_enc.simps)

lemma setNodeType_encPage [simp]:
  "(encPage n)[0 := b] = encPage (n\<lparr>nType := b\<rparr>)"
  by (simp add: encPage_def encHeader_def del: le_enc.simps)

lemma clearPayload_encPage [simp]:
  "clearPayload (encPage n) = encPage (n\<lparr>nSlots := []\<rparr>)"
  by (simp add: clearPayload_def encPage_def pad_Nil encWords_replicate0 PageSize_def del: le_enc.simps)

lemma newPage_encPage:
  "newPage = encPage \<lparr>nType = 0, nRoot = 0, nRes1 = [], nParent = 0, nNum = 0, nRes2 = [],
                      nNext = 0, nSlots = []\<rparr>"
proof -
  have "replicate 4096 (0::byte) = replicate 2 0 @ replicate 4094 0"
    by (simp add: replicate_add [symmetric])
  then have "replicate 4096 (0::byte) = 0 # 0 # replicate 4094 0"
    by (simp add: numeral_2_eq_2)
  then show ?thesis
    by (simp add: newPage_def encPage_def encHeader_def pad_Nil encWords_replicate0 PageSize_def
        replicate_add [symmetric] del: le_enc.simps replicate_Suc)
qed

lemma length_copySlots: "length (copySlots ws d s e) = min 508 (max (length ws) (d + (length ws - s)))"
  by (simp add: copySlots_def)

lemma slotAt_copySlots:
  "m < 508 \<Longrightarrow> slotAt (copySlots ws d s e) m
     = (if d \<le> m \<and> m < d + (e - s) then slotAt ws (m - d + s) else slotAt ws m)"
  by (auto simp: slotAt_def copySlots_def)

lemma nth_append3:
  "length A = a \<Longrightarrow> length B = b
   \<Longrightarrow> (A @ B @ C) ! m = (if m < a then A ! m else if m - a < b then B ! (m - a) else C ! (m - a - b))"
  by (auto simp: nth_append)

lemma drop_encWords_add: "drop (8 * a + 8 * b) (encWords ws) = encWords (drop (a + b) ws)"
  using drop_encWords [of "a + b" ws] by (simp add: distrib_left)

lemma copy_pad:
  assumes "d \<le> 508" "s \<le> e" "e \<le> 508"
  shows "take d (pad 508 ws) @ take (min (508 - d) (e - s)) (drop s (pad 508 ws))
           @ drop (d + min (508 - d) (e - s)) (pad 508 ws)
         = pad 508 (copySlots ws d s e)"
proof -
  define c where "c = min (508 - d) (e - s)"
  define P where "P = pad 508 ws"
  have c: "c \<le> 508 - d" "c \<le> e - s" "c \<le> 508 - s" "d + c \<le> 508"
    using assms by (simp_all add: c_def)
  have lP: "length P = 508" by (simp add: P_def)
  have lens: "length (take d P) = d" "length (take c (drop s P)) = c"
    using assms c by (simp_all add: lP)
  have "take d P @ take c (drop s P) @ drop (d + c) P = pad 508 (copySlots ws d s e)"
  proof (rule nth_equalityI)
    show "length (take d P @ take c (drop s P) @ drop (d + c) P) = length (pad 508 (copySlots ws d s e))"
      using c assms by (simp add: lP)
  next
    fix m
    assume "m < length (take d P @ take c (drop s P) @ drop (d + c) P)"
    then have m: "m < 508" using c assms by (simp add: lP)
    have P: "\<And>k. k < 508 \<Longrightarrow> P ! k = slotAt ws k"
      by (simp add: P_def nth_pad_slotAt)
    consider "m < d" | "d \<le> m" "m - d < c" | "d \<le> m" "c \<le> m - d" by linarith
    then have "(take d P @ take c (drop s P) @ drop (d + c) P) ! m
        = (if d \<le> m \<and> m < d + (e - s) then slotAt ws (m - d + s) else slotAt ws m)"
    proof cases
      case 1
      then show ?thesis using m assms by (simp add: nth_append3 [OF lens] P lP)
    next
      case 2
      then have "m < d + (e - s)" using c by simp
      moreover have "s + (m - d) < 508" using 2 c by simp
      ultimately show ?thesis using 2 m c
        by (simp add: nth_append3 [OF lens] P lP add.commute)
    next
      case 3
      then have "\<not> m < d + (e - s)" using m by (simp add: c_def min_def split: if_splits)
      moreover have "d + c + (m - d - c) = m" using 3 by simp
      ultimately show ?thesis using 3 m c
        by (simp add: nth_append3 [OF lens] P lP)
    qed
    then show "(take d P @ take c (drop s P) @ drop (d + c) P) ! m = pad 508 (copySlots ws d s e) ! m"
      using m by (simp add: nth_pad_slotAt slotAt_copySlots)
  qed
  then show ?thesis by (simp add: c_def P_def)
qed

lemma copyWithin_encPage:
  assumes "d \<le> 508" "s \<le> e" "e \<le> 508"
  shows "copyWithin (encPage n) (32 + 8 * d) (32 + 8 * s) (32 + 8 * e)
           = Inr (encPage (n\<lparr>nSlots := copySlots (nSlots n) d s e\<rparr>))"
proof -
  let ?P = "pad 508 (nSlots n)"
  let ?c = "min (508 - d) (e - s)"
  have c: "min (4064 - 8 * d) (8 * e - 8 * s) = 8 * ?c"
    using assms by (simp add: min_def diff_mult_distrib2)
  have e2: "32 + 8 * d + 8 * ?c = 32 + 8 * (d + ?c)" by simp
  have "take (32 + 8 * d) (encPage n) @ take (8 * ?c) (drop (32 + 8 * s) (encPage n))
          @ drop (32 + 8 * d + 8 * ?c) (encPage n)
        = encHeader n @ encWords (take d ?P) @ encWords (take ?c (drop s ?P))
          @ encWords (drop (d + ?c) ?P)"
    by (simp add: encPage_def take_encWords drop_encWords drop_encWords_add)
  also have "\<dots> = encHeader n @ encWords (take d ?P @ take ?c (drop s ?P) @ drop (d + ?c) ?P)"
    by (simp add: encWords_append)
  also have "\<dots> = encPage (n\<lparr>nSlots := copySlots (nSlots n) d s e\<rparr>)"
    using assms by (simp add: copy_pad encPage_def)
  finally show ?thesis
    using assms by (simp add: copyWithin_def c Let_def PageSize_def)
qed

lemma copyWithin_encPage_off:
  assumes "32 \<le> dst" "(dst - 32) mod 8 = 0" "dst \<le> 4096"
    and "32 \<le> src" "(src - 32) mod 8 = 0" "src \<le> srcEnd"
    and "(srcEnd - 32) mod 8 = 0" "srcEnd \<le> 4096"
  shows "copyWithin (encPage n) dst src srcEnd
           = Inr (encPage (n\<lparr>nSlots := copySlots (nSlots n) ((dst - 32) div 8) ((src - 32) div 8)
                                          ((srcEnd - 32) div 8)\<rparr>))"
proof -
  define d s e where "d = (dst - 32) div 8" and "s = (src - 32) div 8" and "e = (srcEnd - 32) div 8"
  have eqs: "dst = 32 + 8 * d" "src = 32 + 8 * s" "srcEnd = 32 + 8 * e"
    using assms unfolding d_def s_def e_def by (simp_all add: mod_eq_0_iff_dvd)
  have "d \<le> 508" "s \<le> e" "e \<le> 508" using assms unfolding eqs by simp_all
  then show ?thesis
    unfolding d_def [symmetric] s_def [symmetric] e_def [symmetric] unfolding eqs
    by (rule copyWithin_encPage)
qed

lemma copyWithin_Panic:
  "\<not> (dst \<le> length page \<and> src \<le> srcEnd \<and> srcEnd \<le> length page)
   \<Longrightarrow> copyWithin page dst src srcEnd = Inl Panic"
  by (auto simp: copyWithin_def)

lemma put64_encPage_off:
  "32 \<le> off \<Longrightarrow> (off - 32) mod 8 = 0 \<Longrightarrow> off + 8 \<le> 4096
   \<Longrightarrow> put64 (encPage n) off v = encPage (n\<lparr>nSlots := putSlot (nSlots n) ((off - 32) div 8) v\<rparr>)"
  using PutUint64_encPage [of off n v] by (simp add: PutUint64_def PageSize_def)

lemma get64_encPage_off:
  "32 \<le> off \<Longrightarrow> (off - 32) mod 8 = 0 \<Longrightarrow> off + 8 \<le> 4096
   \<Longrightarrow> get64 (encPage n) off = slotAt (nSlots n) ((off - 32) div 8)"
  using Uint64_encPage [of off n] by (simp add: Uint64_def PageSize_def)

lemma take_take_drop: "take a p @ take b (drop a p) = take (a + b) p"
  by (simp add: take_add)

lemma encWords_slots:
  "off + 8 * k \<le> length p
   \<Longrightarrow> encWords (map (\<lambda>m. le_dec (take 8 (drop (off + 8 * m) p))) [0..<k]) = take (8 * k) (drop off p)"
proof (induction k)
  case 0
  then show ?case by simp
next
  case (Suc k)
  have len: "length (take 8 (drop (off + 8 * k) p)) = 8"
    using Suc.prems by simp
  have "le_enc 8 (le_dec (take 8 (drop (off + 8 * k) p))) = take 8 (drop (off + 8 * k) p)"
    using le_enc_dec [of "take 8 (drop (off + 8 * k) p)"] len by simp
  moreover have "take (8 * Suc k) (drop off p)
      = take (8 * k) (drop off p) @ take 8 (drop (off + 8 * k) p)"
  proof -
    have "take (8 * k + 8) (drop off p) = take (8 * k) (drop off p) @ take 8 (drop (8 * k) (drop off p))"
      by (rule take_add)
    then show ?thesis by (simp add: add.commute)
  qed
  ultimately show ?case
    using Suc by (simp add: encWords_append encWords_Cons del: le_enc.simps)
qed

lemma encPage_decPage:
  assumes "length p = PageSize"
  shows "encPage (decPage p) = p"
proof -
  have l: "length p = 4096" using assms by (simp add: PageSize_def)
  have h0: "[p ! 0, p ! 1] = take 2 p"
    using l by (simp add: take_Suc_conv_app_nth numeral_2_eq_2)
  have h1: "pad 6 (take 6 (drop 2 p)) = take 6 (drop 2 p)"
    using l by (simp add: pad_def)
  have h2: "le_enc 8 (get64 p 8) = take 8 (drop 8 p)"
    using le_enc_dec [of "take 8 (drop 8 p)"] l by (simp add: get64_def)
  have "le_dec (take 2 (drop 16 p)) = take_bit 16 (le_dec (take 2 (drop 16 p)))"
    using le_dec_bound [of "take 2 (drop 16 p)"] l by simp
  then have "word_of_nat (getNumKeys p) = le_dec (take 2 (drop 16 p))"
    by (simp add: getNumKeys_def)
  then have h3: "le_enc 2 (word_of_nat (getNumKeys p)) = take 2 (drop 16 p)"
    using le_enc_dec [of "take 2 (drop 16 p)"] l by simp
  have h4: "pad 6 (take 6 (drop 18 p)) = take 6 (drop 18 p)"
    using l by (simp add: pad_def)
  have h5: "le_enc 8 (get64 p 24) = take 8 (drop 24 p)"
    using le_enc_dec [of "take 8 (drop 24 p)"] l by (simp add: get64_def)
  have "encWords (map (\<lambda>m. le_dec (take 8 (drop (32 + 8 * m) p))) [0..<508]) = take (8 * 508) (drop 32 p)"
    using l by (intro encWords_slots) simp
  moreover have "slot p = (\<lambda>m. le_dec (take 8 (drop (32 + 8 * m) p)))"
    by (rule ext) (simp add: slot_def get64_def)
  ultimately have h6: "encWords (pad 508 (map (slot p) [0..<508])) = drop 32 p"
    using l by (simp add: pad_def)
  have "encPage (decPage p)
      = take 2 p @ take 6 (drop 2 p) @ take 8 (drop 8 p) @ take 2 (drop 16 p)
          @ take 6 (drop 18 p) @ take 8 (drop 24 p) @ drop 32 p"
    unfolding encPage_def encHeader_def decPage_def getParentPageID_def getNextLeafPageID_def
    by (simp only: node.simps h0 h1 h2 h3 h4 h5 h6 append_assoc append_Cons append_Nil)
  also have "\<dots> = p"
    by (simp add: take_take_drop [of _ p, simplified] flip: append_assoc) 
  finally show ?thesis .
qed

section \<open>Facts about a file of whole pages\<close>

lemma wholePages_Nil [simp]: "wholePages []"
  by (simp add: wholePages_def)

lemma wholePages_Cons [simp]: "wholePages (p # ps) \<longleftrightarrow> length p = PageSize \<and> wholePages ps"
  by (simp add: wholePages_def)

lemma wholePages_append [simp]: "wholePages (ps @ qs) \<longleftrightarrow> wholePages ps \<and> wholePages qs"
  by (simp add: wholePages_def)

lemma wholePages_nth: "wholePages ps \<Longrightarrow> i < length ps \<Longrightarrow> length (ps ! i) = PageSize"
  by (simp add: wholePages_def list_all_length)

lemma wholePages_update:
  "wholePages ps \<Longrightarrow> length p = PageSize \<Longrightarrow> wholePages (ps[i := p])"
  by (cases "i < length ps") (auto simp: wholePages_def list_all_length nth_list_update)

lemma length_concat_pages: "wholePages ps \<Longrightarrow> length (concat ps) = PageSize * length ps"
  by (induction ps) simp_all

lemma take_concat_pages:
  "wholePages ps \<Longrightarrow> i \<le> length ps \<Longrightarrow> take (PageSize * i) (concat ps) = concat (take i ps)"
proof (induction ps arbitrary: i)
  case Nil
  then show ?case by simp
next
  case (Cons p ps)
  then show ?case by (cases i) simp_all
qed

lemma drop_concat_pages:
  "wholePages ps \<Longrightarrow> i \<le> length ps \<Longrightarrow> drop (PageSize * i) (concat ps) = concat (drop i ps)"
proof (induction ps arbitrary: i)
  case Nil
  then show ?case by simp
next
  case (Cons p ps)
  then show ?case by (cases i) simp_all
qed

lemma page_of_concat:
  assumes "wholePages ps" "i < length ps"
  shows "take PageSize (drop (PageSize * i) (concat ps)) = ps ! i"
proof -
  have "drop (PageSize * i) (concat ps) = concat (drop i ps)"
    using assms by (simp add: drop_concat_pages)
  also have "drop i ps = ps ! i # drop (Suc i) ps"
    using assms by (simp add: Cons_nth_drop_Suc)
  finally show ?thesis
    using assms by (simp add: wholePages_nth)
qed

lemma concat_update_pages:
  assumes "wholePages ps" "i < length ps" "length p = PageSize"
  shows "take (PageSize * i) (concat ps) @ p @ drop (PageSize * i + PageSize) (concat ps)
         = concat (ps[i := p])"
proof -
  have "PageSize * i + PageSize = PageSize * Suc i" by simp
  then have "take (PageSize * i) (concat ps) @ p @ drop (PageSize * i + PageSize) (concat ps)
      = concat (take i ps) @ p @ concat (drop (Suc i) ps)"
    using assms by (simp add: take_concat_pages drop_concat_pages del: mult_Suc_right)
  also have "\<dots> = concat (take i ps @ p # drop (Suc i) ps)" by simp
  also have "take i ps @ p # drop (Suc i) ps = ps[i := p]"
    using assms by (simp add: upd_conv_take_nth_drop)
  finally show ?thesis .
qed

lemma pageAt_pagerOf: "wholePages ps \<Longrightarrow> i < length ps \<Longrightarrow> pageAt (pagerOf ps k) i = ps ! i"
  by (simp add: pageAt_def pagerOf_def page_of_concat)

lemma unat_small_sint:
  assumes "unat (w :: int64) < 2 ^ 51"
  shows "sint w = int (unat w)"
proof -
  have "int (unat w) < 2 ^ 51" using assms by (metis of_nat_less_iff of_nat_numeral of_nat_power)
  then have u: "uint w < 2 ^ 51" by simp
  have "uint w div 2 ^ 63 = 0" using u by (simp add: div_pos_pos_trivial)
  then have "\<not> bit (uint w) 63" by (simp add: bit_iff_odd)
  then show ?thesis by (simp add: sint_eq_uint_minus)
qed

lemma uint_less_of_unat_less: "unat (w :: int64) < k \<Longrightarrow> uint w < int k"
  by (metis of_nat_less_iff uint_nat)

lemma sint_page_offset_unat:
  assumes "unat (pageID :: int64) < 2 ^ 51"
  shows "sint (pageID * 4096) = uint pageID * 4096"
proof -
  have s: "sint pageID = int (unat pageID)" using assms by (rule unat_small_sint)
  have "int (unat pageID) < 2 ^ 51" using assms by (metis of_nat_less_iff of_nat_numeral of_nat_power)
  then show ?thesis
    using sint_page_offset [of pageID] s by simp
qed

lemma sint_next_page_offset:
  assumes "unat (pageID :: int64) < 2 ^ 51 - 1"
  shows "sint (pageID * 4096 + 4096) = uint pageID * 4096 + 4096"
proof -
  have small1: "unat (pageID + 1) = unat pageID + 1"
    using assms by (simp add: unat_word_ariths)
  have "int (unat (pageID + 1)) = int (unat pageID) + 1"
    unfolding small1 by simp
  then have u1: "uint (pageID + 1) = uint pageID + 1"
    by simp
  have e: "pageID * 4096 + 4096 = (pageID + 1) * 4096" by (simp add: algebra_simps)
  have "unat (pageID + 1) < 2 ^ 51" using small1 assms by simp
  then have "sint ((pageID + 1) * 4096) = uint (pageID + 1) * 4096"
    by (rule sint_page_offset_unat)
  then show ?thesis
    unfolding e u1 by simp
qed

lemma sint_of_nat_pages:
  assumes "k < 2 ^ 51"
  shows "sint (4096 * word_of_nat k :: int64) = 4096 * int k"
proof -
  have "4096 * k < 4096 * 2 ^ 51" using assms by simp
  then have "4096 * k < 2 ^ 63" by simp
  then show ?thesis using sint_of_nat_small [of "4096 * k"] by simp
qed

lemma ReadPage_pagerOf:
  assumes "wholePages ps" "unat pageID < length ps" "unat pageID < k" "k < 2 ^ 51"
    and "length buf = PageSize"
  shows "ReadPage (pagerOf ps k) pageID buf = (ps ! unat pageID, None)"
proof -
  have small: "unat pageID < 2 ^ 51" using assms by simp
  have off: "sint (pageID * 4096) = uint pageID * 4096"
    using small by (rule sint_page_offset_unat)
  have fs: "sint (4096 * word_of_nat k :: int64) = 4096 * int k"
    using assms by (intro sint_of_nat_pages)
  have "uint pageID < int k" using assms by (intro uint_less_of_unat_less)
  then have guard: "\<not> (4096 * word_of_nat k :: int64) \<le>s pageID * 4096"
    by (simp add: word_sle_eq off fs)
  have len: "length (concat ps) = 4096 * length ps"
    using assms by (simp add: length_concat_pages PageSize_def)
  have pg: "take 4096 (drop (4096 * unat pageID) (concat ps)) = ps ! unat pageID"
    using page_of_concat [OF assms(1,2)] by (simp add: PageSize_def)
  have "nat (uint pageID * 4096) = 4096 * unat pageID"
    by (simp add: nat_mult_distrib)
  then have "ReadAt (concat ps) buf (uint pageID * 4096) = (ps ! unat pageID, None)"
    using assms pg by (simp add: ReadAt_def len PageSize_def Let_def)
  then show ?thesis
    using guard by (simp add: ReadPage_def pagerOf_def PageSize_def Let_def off)
qed

lemma ReadPage_pagerOf_past:
  assumes "k \<le> unat pageID" "unat pageID < 2 ^ 51"
  shows "ReadPage (pagerOf ps k) pageID buf = (buf, Some (ReadPastEnd pageID))"
proof -
  have off: "sint (pageID * 4096) = uint pageID * 4096"
    using assms by (intro sint_page_offset_unat)
  have fs: "sint (4096 * word_of_nat k :: int64) = 4096 * int k"
    using assms by (intro sint_of_nat_pages) simp
  have "int k \<le> uint pageID" using assms by (metis of_nat_le_iff uint_nat)
  then have guard: "(4096 * word_of_nat k :: int64) \<le>s pageID * 4096"
    by (simp add: word_sle_eq off fs)
  then show ?thesis
    by (simp add: ReadPage_def pagerOf_def PageSize_def Let_def)
qed

lemma AllocatePage_pagerOf: "AllocatePage (pagerOf ps k) = (word_of_nat k, pagerOf ps (Suc k))"
  by (simp add: AllocatePage_def pagerOf_def PageSize_def algebra_simps)

lemma WritePage_pagerOf:
  assumes "wholePages ps" "unat pageID < length ps" "unat pageID < k" "k < 2 ^ 51"
    and "length page = PageSize"
  shows "WritePage (pagerOf ps k) pageID page = (pagerOf (ps[unat pageID := page]) k, None)"
proof -
  have small: "unat pageID < 2 ^ 51 - 1" using assms by simp
  have off: "sint (pageID * 4096) = uint pageID * 4096"
    using small by (intro sint_page_offset_unat) simp
  have off1: "sint (pageID * 4096 + 4096) = uint pageID * 4096 + 4096"
    using small by (rule sint_next_page_offset)
  have fs: "sint (4096 * word_of_nat k :: int64) = 4096 * int k"
    using assms by (intro sint_of_nat_pages)
  have "uint pageID < int k" using assms by (intro uint_less_of_unat_less)
  then have guard: "\<not> (4096 * word_of_nat k :: int64) <s pageID * 4096 + 4096"
    by (simp add: word_sless_alt off1 fs)
  have "nat (uint pageID * 4096) = PageSize * unat pageID"
    by (simp add: nat_mult_distrib PageSize_def)
  moreover have "PageSize * unat pageID \<le> length (concat ps)"
    using assms by (simp add: length_concat_pages)
  ultimately have "WriteAt (concat ps) page (uint pageID * 4096) = (concat (ps[unat pageID := page]), None)"
    using concat_update_pages [OF assms(1,2,5)] assms(5) by (simp add: WriteAt_def)
  then show ?thesis
    using guard by (simp add: WritePage_def pagerOf_def PageSize_def Let_def off)
qed

lemma WritePage_pagerOf_end:
  assumes "wholePages ps" "unat pageID = length ps" "k < 2 ^ 51" "length ps < k"
    and "length page = PageSize"
  shows "WritePage (pagerOf ps k) pageID page = (pagerOf (ps @ [page]) k, None)"
proof -
  have small: "unat pageID < 2 ^ 51 - 1" using assms by simp
  have off: "sint (pageID * 4096) = uint pageID * 4096"
    using small by (intro sint_page_offset_unat) simp
  have off1: "sint (pageID * 4096 + 4096) = uint pageID * 4096 + 4096"
    using small by (rule sint_next_page_offset)
  have fs: "sint (4096 * word_of_nat k :: int64) = 4096 * int k"
    using assms by (intro sint_of_nat_pages)
  have "uint pageID < int k" using assms by (intro uint_less_of_unat_less) simp
  then have guard: "\<not> (4096 * word_of_nat k :: int64) <s pageID * 4096 + 4096"
    by (simp add: word_sless_alt off1 fs)
  have "nat (uint pageID * 4096) = length (concat ps)"
    using assms by (simp add: nat_mult_distrib length_concat_pages PageSize_def)
  then have "WriteAt (concat ps) page (uint pageID * 4096) = (concat (ps @ [page]), None)"
    by (simp add: WriteAt_def)
  then show ?thesis
    using guard by (simp add: WritePage_def pagerOf_def PageSize_def Let_def off)
qed


lemma go_div_pages:
  assumes "n < 2 ^ 51"
  shows "go_div (4096 * word_of_nat n) 4096 = (word_of_nat n :: int64)"
proof -
  have "sint (4096 * word_of_nat n :: int64) = 4096 * int n"
    using assms by (rule sint_of_nat_pages)
  then show ?thesis
    by (simp add: go_div_def signed_divide_int_eq_divide_int)
qed

lemma WritePage_pagerOf_grow:
  assumes "wholePages ps" "unat pageID = length ps" "k \<le> length ps" "length ps < 2 ^ 51 - 1"
    and "length page = PageSize"
  shows "WritePage (pagerOf ps k) pageID page = (pagerOf (ps @ [page]) (Suc (length ps)), None)"
proof -
  have small: "unat pageID < 2 ^ 51 - 1" using assms by simp
  have pid: "pageID = word_of_nat (length ps)"
    using assms(2) by (metis of_nat_unat ucast_id)
  have off: "sint (pageID * 4096) = uint pageID * 4096"
    using small by (intro sint_page_offset_unat) simp
  have off1: "sint (pageID * 4096 + 4096) = uint pageID * 4096 + 4096"
    using small by (rule sint_next_page_offset)
  have fs: "sint (4096 * word_of_nat k :: int64) = 4096 * int k"
    using assms by (intro sint_of_nat_pages) simp
  have "int k \<le> uint pageID" using assms by (metis of_nat_le_iff uint_nat)
  then have guard: "(4096 * word_of_nat k :: int64) <s pageID * 4096 + 4096"
    by (simp add: word_sless_alt off1 fs)
  have "nat (uint pageID * 4096) = length (concat ps)"
    using assms by (simp add: nat_mult_distrib length_concat_pages PageSize_def)
  then have w: "WriteAt (concat ps) page (uint pageID * 4096) = (concat (ps @ [page]), None)"
    by (simp add: WriteAt_def)
  have new: "pageID * 4096 + 4096 = 4096 + 4096 * word_of_nat (length ps)"
    by (simp add: pid algebra_simps)
  have "Suc (length ps) < 2 ^ 51" using assms by simp
  then have "go_div (4096 * word_of_nat (Suc (length ps))) 4096 = (word_of_nat (Suc (length ps)) :: int64)"
    by (rule go_div_pages)
  then have gd: "go_div (4096 + 4096 * word_of_nat (length ps)) 4096 = (1 + word_of_nat (length ps) :: int64)"
    by (simp add: algebra_simps)
  have "WritePage (pagerOf ps k) pageID page
      = (\<lparr>file' = concat (ps @ [page]), fileSize = pageID * 4096 + 4096,
          numPages = go_div (pageID * 4096 + 4096) 4096\<rparr>, None)"
    using guard w unfolding WritePage_def pagerOf_def PageSize_def Let_def
    by (simp add: off)
  also have "\<dots> = (pagerOf (ps @ [page]) (Suc (length ps)), None)"
    unfolding new gd by (simp add: pagerOf_def PageSize_def algebra_simps)
  finally show ?thesis .
qed

lemma NewPager_concat:
  assumes "wholePages ps" "length ps < 2 ^ 51"
  shows "NewPager (concat ps) = pagerOf ps (length ps)"
proof -
  have "go_div (4096 * word_of_nat (length ps)) 4096 = (word_of_nat (length ps) :: int64)"
    using assms(2) by (rule go_div_pages)
  then show ?thesis
    using assms(1) by (simp add: NewPager_def pagerOf_def length_concat_pages PageSize_def Let_def)
qed

lemma numPages_pagerOf [simp]: "numPages (pagerOf ps k) = word_of_nat k"
  by (simp add: pagerOf_def)

lemma file_pagerOf [simp]: "file' (pagerOf ps k) = concat ps"
  by (simp add: pagerOf_def)

lemma unat_word_of_nat_pages: "k < 2 ^ 51 \<Longrightarrow> unat (word_of_nat k :: int64) = k"
proof -
  assume "k < 2 ^ 51"
  then have "k < 2 ^ 64" by simp
  then have "take_bit 64 k = k" by (simp only: take_bit_nat_eq_self)
  then show ?thesis by (simp add: unsigned_of_nat)
qed

section \<open>The run with degree 3, step by step\<close>

text \<open>
  The rules that evaluate the program on pages given by their fields, and each step of the
  run.
\<close>

lemmas eval_simps =
  mkNode_def mkTree_def newPage_encPage Uint64_encPage PutUint64_encPage copyWithin_encPage_off
  put64_encPage_off get64_encPage_off
  ReadPage_pagerOf ReadPage_pagerOf_past WritePage_pagerOf WritePage_pagerOf_end
  WritePage_pagerOf_grow AllocatePage_pagerOf slotAt_def putSlot_def copySlots_def
  separatorIndex.simps searchKeys.simps scanLeaf.simps hasKey.simps leafInsertIndex.simps
  collectLeaf.simps collectInternal.simps spliceIndex.simps
  findLeafPageFrom.simps scanLeaves.simps insertIntoParent.simps
  findLeafPage_def Search_def SearchRange_def Insert_def insertIntoLeaf_def splitLeaf_def
  splitAndInsertLeaf_def newRoot_def insertIntoInternal_def splitInternal_def
  Let_def word_sless_alt word_sle_eq PageSize_def upt_rec numeral_2_eq_2 [symmetric]
  pageAt_pagerOf leafEntries_def internalKeys_def internalPointers_def slot_encPage

lemma demo0: "NewBPlusTree (NewPager []) 3 = Inr demo0"
proof -
  have "NewPager [] = pagerOf [] 0"
    using NewPager_concat [of "[]"] by simp
  then show ?thesis
    by (simp add: NewBPlusTree_def demo0_def eval_simps)
qed

lemma demo1: "Insert demo0 30 300 = Some (demo1, None)"
  by (simp add: demo0_def demo1_def eval_simps)

lemma demo2: "Insert demo1 20 200 = Some (demo2, None)"
  by (simp add: demo1_def demo2_def eval_simps)

lemma demo3: "Insert demo2 10 100 = Some (demo3, None)"
  by (simp add: demo2_def demo3_def eval_simps)

lemma demo4: "Insert demo3 5 50 = Some (demo4, None)"
  by (simp add: demo3_def demo4_def eval_simps)

lemma demo5: "Insert demo4 1 10 = Some (demo5, None)"
  by (simp add: demo4_def demo5_def eval_simps)

lemma demo4_leaf: "findLeafPage demo4 1 = Some (Inr 0)"
  by (simp add: demo4_def eval_simps)

lemma demo4_split:
  "splitLeaf demo4 0 (pageAt (pager demo4) 0) 1 10 = (demo4split, Inr (2, 5, 3))"
  by (simp add: demo4_def demo4split_def eval_simps)

lemma demo4split_parent:
  "insertIntoParent demo4split 2 0 5 3 = Some (demo5, None)"
  by (simp add: demo4split_def demo5_def eval_simps)

lemma demo4split_page2:
  "isLeaf (pageAt (pager demo4split) 2) = False
   \<and> internalKeys (pageAt (pager demo4split) 2) = [20]
   \<and> internalPointers (pageAt (pager demo4split) 2) = [0, 1]"
  by (simp add: demo4split_def eval_simps)

lemma demo5_page2:
  "isLeaf (pageAt (pager demo5) 2) = False
   \<and> internalKeys (pageAt (pager demo5) 2) = [5, 0]
   \<and> internalPointers (pageAt (pager demo5) 2) = [0, 3, 1]"
  by (simp add: demo5_def eval_simps)

lemma demo5_leaves:
  "isLeaf (pageAt (pager demo5) 0) \<and> leafEntries (pageAt (pager demo5) 0) = [(1, 10)]
     \<and> getNextLeafPageID (pageAt (pager demo5) 0) = 3
   \<and> isLeaf (pageAt (pager demo5) 3) \<and> leafEntries (pageAt (pager demo5) 3) = [(5, 50), (10, 100)]
     \<and> getNextLeafPageID (pageAt (pager demo5) 3) = 1
   \<and> isLeaf (pageAt (pager demo5) 1) \<and> leafEntries (pageAt (pager demo5) 1) = [(20, 200), (30, 300)]
     \<and> getNextLeafPageID (pageAt (pager demo5) 1) = - 1"
  by (simp add: demo5_def eval_simps)

lemma demo4_Search5: "Search demo4 5 = Some (Inr (50, True))"
  by (simp add: demo4_def eval_simps)

lemma demo5_Search1: "Search demo5 1 = Some (Inr (10, True))"
  by (simp add: demo5_def eval_simps)

lemma demo5_Search5: "Search demo5 5 = Some (Inr (0, False))"
  by (simp add: demo5_def eval_simps)

lemma demo5_SearchRange: "SearchRange demo5 5 10 = Some (Inr [])"
  by (simp add: demo5_def eval_simps)

lemma demo3_Search20: "Search demo3 20 = Some (Inr (200, True))"
  by (simp add: demo3_def eval_simps)

lemma demo3_reopen: "NewBPlusTree (NewPager (file' (pager demo3))) 3 = Inr demo3reopened"
proof -
  have "NewPager (file' (pager demo3)) = pager demo3"
    using NewPager_concat [of "map encPage [mkNode 0 0 2 1 1 [10, 100],
                   mkNode 0 0 2 2 (- 1) [20, 200, 30, 300],
                   mkNode 1 1 (- 1) 1 0 [0, 20, 1]]"]
    by (simp add: demo3_def mkTree_def numeral_3_eq_3)
  then show ?thesis
    by (simp add: NewBPlusTree_def demo3reopened_def demo3_def mkTree_def)
qed

lemma demo3reopened_Search20: "Search demo3reopened 20 = Some (Inr (0, False))"
  by (simp add: demo3reopened_def demo3_def eval_simps)

section \<open>Facts about the loops over a page\<close>

lemma length_ReadAt: "length (fst (ReadAt f b off)) = length b"
  by (simp add: ReadAt_def Let_def)

lemma length_ReadPage: "length (fst (ReadPage p pageID buf)) = length buf"
  by (simp add: ReadPage_def Let_def length_ReadAt)

lemma length_newPage [simp]: "length newPage = PageSize"
  by (simp add: newPage_def)

lemma Uint64_slot:
  "length page = PageSize \<Longrightarrow> m < 508 \<Longrightarrow> Uint64 page (32 + 8 * m) = Inr (slot page m)"
  by (simp add: Uint64_def slot_def PageSize_def)

lemma Uint64_key:
  "length page = PageSize \<Longrightarrow> i < 254 \<Longrightarrow> Uint64 page (32 + i * 16) = Inr (slot page (2 * i))"
  using Uint64_slot [of page "2 * i"] by (simp add: mult.commute)

lemma Uint64_value:
  "length page = PageSize \<Longrightarrow> i < 254 \<Longrightarrow> Uint64 page (32 + i * 16 + 8) = Inr (slot page (2 * i + 1))"
  using Uint64_slot [of page "2 * i + 1"] by (simp add: mult.commute add.commute)

lemma hasKey_found:
  assumes "length page = PageSize" "i < n" "i < 254" "slot page (2 * i) = key"
  shows "j \<le> i \<Longrightarrow> hasKey page key n j = Inr True"
proof (induction "i - j" arbitrary: j)
  case 0
  then have "j = i" by simp
  then show ?case using assms by (subst hasKey.simps) (simp add: Uint64_key)
next
  case (Suc d)
  then have j: "j < i" "d = i - (j + 1)" "j + 1 \<le> i" by simp_all
  have "hasKey page key n (j + 1) = Inr True" using Suc(1) [OF j(2) j(3)] .
  then show ?case using assms j by (subst hasKey.simps) (simp add: Uint64_key)
qed

lemma Uint64_value_simp:
  "length page = PageSize \<Longrightarrow> i < 254 \<Longrightarrow> Uint64 page (40 + i * 16) = Inr (slot page (2 * i + 1))"
  using Uint64_value [of page i] by simp

section \<open>Facts about the split of a leaf\<close>

lemma length_insertEntry [simp]: "length (insertEntry e xs) = Suc (length xs)"
  by (induction xs) auto

lemma set_insertEntry [simp]: "set (insertEntry e xs) = insert e (set xs)"
  by (induction xs) auto

lemma sless_total: "\<not> a <s b \<Longrightarrow> a \<noteq> b \<Longrightarrow> b <s (a :: int64)"
proof -
  assume "\<not> a <s b" "a \<noteq> b"
  moreover have "sint a \<noteq> sint b" using \<open>a \<noteq> b\<close> by (auto dest: signed_word_eqI)
  ultimately show ?thesis by (simp add: word_sless_alt)
qed

lemma sorted_insertEntry:
  "sorted_wrt (<s) (map fst xs) \<Longrightarrow> fst e \<notin> set (map fst xs)
   \<Longrightarrow> sorted_wrt (<s) (map fst (insertEntry e xs))"
proof (induction xs)
  case Nil
  then show ?case by simp
next
  case (Cons x xs)
  show ?case
  proof (cases "fst e <s fst x")
    case True
    then have "\<forall>y\<in>set xs. fst e <s fst y"
      using Cons.prems(1) by (auto simp: word_sless_alt)
    then show ?thesis using True Cons.prems by simp
  next
    case False
    then have "fst x <s fst e"
      using Cons.prems(2) by (intro sless_total) auto
    then show ?thesis using False Cons by auto
  qed
qed

lemma length_flatEntries [simp]: "length (flatEntries es) = 2 * length es"
  by (induction es) (auto simp: flatEntries_def)

lemma flatEntries_append [simp]: "flatEntries (xs @ ys) = flatEntries xs @ flatEntries ys"
  by (simp add: flatEntries_def)

lemma flatEntries_single [simp]: "flatEntries [(k, v)] = [k, v]"
  by (simp add: flatEntries_def)

lemma flatEntries_Nil [simp]: "flatEntries [] = []"
  by (simp add: flatEntries_def)

lemma nth_flatEntries:
  "i < length es \<Longrightarrow> flatEntries es ! (2 * i) = fst (es ! i) \<and> flatEntries es ! (2 * i + 1) = snd (es ! i)"
proof (induction es arbitrary: i)
  case Nil
  then show ?case by simp
next
  case (Cons e es)
  then show ?case
    by (cases i; cases e) (auto simp: flatEntries_def)
qed

lemma leafEntries_encPage_flat:
  assumes "length es \<le> 254" "nNum m = length es" "nSlots m = flatEntries es"
  shows "leafEntries (encPage m) = es"
proof -
  have "map (\<lambda>i. (slot (encPage m) (2 * i), slot (encPage m) (2 * i + 1))) [0..<length es]
      = map (\<lambda>i. es ! i) [0..<length es]"
  proof (rule map_cong [OF refl])
    fix i assume "i \<in> set [0..<length es]"
    then have i: "i < length es" by simp
    then have "2 * i < 508" "2 * i + 1 < 508" using assms(1) by simp_all
    then show "(slot (encPage m) (2 * i), slot (encPage m) (2 * i + 1)) = es ! i"
      using i nth_flatEntries [OF i] by (simp add: slot_encPage slotAt_def assms(3))
  qed
  then show ?thesis
    using assms by (simp add: leafEntries_def map_nth)
qed

lemma writeEntries_encPage:
  "nSlots m = flatEntries done \<Longrightarrow> length done = i \<Longrightarrow> i + length es \<le> 254
   \<Longrightarrow> writeEntries (encPage m) i es = Inr (encPage (m\<lparr>nSlots := flatEntries (done @ es)\<rparr>))"
proof (induction es arbitrary: m "done" i)
  case Nil
  show ?case using Nil(1) [symmetric] by simp
next
  case (Cons e es)
  obtain k v where e: "e = (k, v)" by (cases e)
  let ?m2 = "m\<lparr>nSlots := flatEntries (done @ [(k, v)])\<rparr>"
  have i: "i \<le> 253" using Cons.prems by simp
  have p1: "PutUint64 (encPage m) (32 + i * 16) k
      = Inr (encPage (m\<lparr>nSlots := flatEntries done @ [k]\<rparr>))"
    using i Cons.prems(1,2)
    by (subst PutUint64_encPage) (simp_all add: putSlot_def)
  have p2: "PutUint64 (encPage (m\<lparr>nSlots := flatEntries done @ [k]\<rparr>)) (32 + i * 16 + 8) v
      = Inr (encPage ?m2)"
    using i Cons.prems(1,2)
    by (subst PutUint64_encPage) (simp_all add: putSlot_def)
  have "writeEntries (encPage ?m2) (i + 1) es
      = Inr (encPage (?m2\<lparr>nSlots := flatEntries ((done @ [(k, v)]) @ es)\<rparr>))"
    using Cons.prems by (intro Cons.IH) simp_all
  then show ?case
    unfolding e writeEntries.simps p1 sum.case p2 by simp
qed

lemma collectLeaf_result:
  assumes "length page = PageSize" "n \<le> 254"
  shows "i \<le> n \<Longrightarrow>
    \<exists>r ins. collectLeaf page key value n i inserted temp = Inr (r, ins)
      \<and> (if \<not> ins then r @ [(key, value)] else r)
          = temp @ (if inserted
                    then map (\<lambda>j. (slot page (2 * j), slot page (2 * j + 1))) [i..<n]
                    else insertEntry (key, value)
                           (map (\<lambda>j. (slot page (2 * j), slot page (2 * j + 1))) [i..<n]))"
proof (induction "n - i" arbitrary: i inserted temp)
  case 0
  then have "i = n" by simp
  then show ?case by (subst collectLeaf.simps) simp
next
  case (Suc d)
  then have i: "i < n" "d = n - (i + 1)" "i + 1 \<le> n" by simp_all
  have i254: "i < 254" using i assms by simp
  let ?ck = "slot page (2 * i)" and ?cv = "slot page (2 * i + 1)"
  let ?ents = "\<lambda>i. map (\<lambda>j. (slot page (2 * j), slot page (2 * j + 1))) [i..<n]"
  have ents: "?ents i = (?ck, ?cv) # ?ents (i + 1)"
    using i by (simp add: upt_conv_Cons)
  have u1: "Uint64 page (32 + i * 16) = Inr ?ck"
    using assms(1) i254 by (rule Uint64_key)
  have u2: "Uint64 page (40 + i * 16) = Inr ?cv"
    using assms(1) i254 by (rule Uint64_value_simp)
  show ?case
  proof (cases "\<not> inserted \<and> key <s ?ck")
    case True
    obtain r ins where
      "collectLeaf page key value n (i + 1) True (temp @ [(key, value), (?ck, ?cv)]) = Inr (r, ins)"
      "(if \<not> ins then r @ [(key, value)] else r)
         = (temp @ [(key, value), (?ck, ?cv)]) @ ?ents (i + 1)"
      using Suc(1) [OF i(2) i(3), of True "temp @ [(key, value), (?ck, ?cv)]"] by auto
    then show ?thesis
      using True i unfolding ents
      by (subst collectLeaf.simps) (simp add: u1 u2)
  next
    case False
    obtain r ins where
      "collectLeaf page key value n (i + 1) inserted (temp @ [(?ck, ?cv)]) = Inr (r, ins)"
      "(if \<not> ins then r @ [(key, value)] else r)
         = (temp @ [(?ck, ?cv)]) @ (if inserted then ?ents (i + 1)
                                      else insertEntry (key, value) (?ents (i + 1)))"
      using Suc(1) [OF i(2) i(3), of inserted "temp @ [(?ck, ?cv)]"] by auto
    then show ?thesis
      using False i unfolding ents
      by (subst collectLeaf.simps) (auto simp: u1 u2)
  qed
qed

lemma collectLeaf_insertEntry:
  assumes "length page = PageSize" "getNumKeys page \<le> 254"
  shows "\<exists>r ins. collectLeaf page key value (getNumKeys page) 0 False [] = Inr (r, ins)
      \<and> (if \<not> ins then r @ [(key, value)] else r) = insertEntry (key, value) (leafEntries page)"
  using collectLeaf_result [OF assms, of 0 key "value" False "[]"]
  by (simp add: leafEntries_def)

section \<open>What the run shows\<close>

text \<open>
  Claim C1 fails on this run. With degree 3 the keys 30, 20, 10, 5 and 1 are inserted into
  an empty file, every \<^verbatim>\<open>Insert\<close> returning no error. Before the last one
  \<^verbatim>\<open>Search(5)\<close> returns \<open>(50, true)\<close>; after it \<^verbatim>\<open>Search(1)\<close> returns \<open>(10, true)\<close>, but
  \<^verbatim>\<open>Search(5)\<close> returns \<open>(0, false)\<close>: the result for another key has changed.
\<close>

theorem Insert_changes_other_key:
  "NewBPlusTree (NewPager []) 3 = Inr demo0
   \<and> Insert demo0 30 300 = Some (demo1, None)
   \<and> Insert demo1 20 200 = Some (demo2, None)
   \<and> Insert demo2 10 100 = Some (demo3, None)
   \<and> Insert demo3 5 50 = Some (demo4, None)
   \<and> Search demo4 5 = Some (Inr (50, True))
   \<and> Insert demo4 1 10 = Some (demo5, None)
   \<and> Search demo5 1 = Some (Inr (10, True))
   \<and> Search demo5 5 = Some (Inr (0, False))"
  using demo0 demo1 demo2 demo3 demo4 demo5 demo4_Search5 demo5_Search1 demo5_Search5
  by simp

text \<open>
  Claim C2 fails on the last step of the run. The leaf split of \<^verbatim>\<open>Insert(1, 10)\<close> leaves
  the parent, page 2, with the payload \<open>P\<^sub>0 = 0, (K\<^sub>1, P\<^sub>1) = (20, 1)\<close> and calls
  \<^verbatim>\<open>insertIntoParent(2, 0, 5, 3)\<close>. The page has room (one key, degree 3), the new pair
  \<open>(5, 3)\<close> belongs before \<open>(20, 1)\<close>, and the claim asks for \<open>0, (5, 3), (20, 1)\<close>. The
  page written is \<open>0, (5, 3), (0, 1)\<close>: the copy starts eight bytes after the separator
  \<open>20\<close>, which is then overwritten by the new key, and the pointer \<open>1\<close> is paired with
  the eight bytes that followed it.
\<close>

theorem insertIntoParent_overwrites_separator:
  "splitLeaf demo4 0 (pageAt (pager demo4) 0) 1 10 = (demo4split, Inr (2, 5, 3))
   \<and> isLeaf (pageAt (pager demo4split) 2) = False
   \<and> internalKeys (pageAt (pager demo4split) 2) = [20]
   \<and> internalPointers (pageAt (pager demo4split) 2) = [0, 1]
   \<and> insertIntoParent demo4split 2 0 5 3 = Some (demo5, None)
   \<and> internalKeys (pageAt (pager demo5) 2) = [5, 0]
   \<and> internalPointers (pageAt (pager demo5) 2) = [0, 3, 1]"
  using demo4_split demo4split_page2 demo4split_parent demo5_page2
  by simp

text \<open>
  Claim C3 fails on the run. After the five inserts have completed, the internal page 2
  (the root) stores the keys 5 and 0, which are not increasing.
\<close>

theorem internal_keys_not_increasing:
  "NewBPlusTree (NewPager []) 3 = Inr demo0
   \<and> Insert demo0 30 300 = Some (demo1, None)
   \<and> Insert demo1 20 200 = Some (demo2, None)
   \<and> Insert demo2 10 100 = Some (demo3, None)
   \<and> Insert demo3 5 50 = Some (demo4, None)
   \<and> Insert demo4 1 10 = Some (demo5, None)
   \<and> rootPageID demo5 = 2
   \<and> isLeaf (pageAt (pager demo5) 2) = False
   \<and> internalKeys (pageAt (pager demo5) 2) = [5, 0]
   \<and> \<not> sorted_wrt (<s) (internalKeys (pageAt (pager demo5) 2))"
proof -
  have "rootPageID demo5 = 2"
    by (simp add: demo5_def mkTree_def)
  moreover have "\<not> sorted_wrt (<s) [5, 0 :: int64]"
    by (simp add: word_sless_alt)
  ultimately show ?thesis
    using demo0 demo1 demo2 demo3 demo4 demo5 demo5_page2 by simp
qed

text \<open>
  Claim C8 fails on the run. In the state after the five inserts the leaves form the
  chain of the pages 0, 3 and 1, with the keys \<open>1\<close>, then \<open>5, 10\<close>, then \<open>20, 30\<close>, ending
  in \<open>-1\<close>: a valid ascending chain. The entries with a key in \<open>[5, 10]\<close> have the offsets
  50 and 100, and \<^verbatim>\<open>SearchRange(5, 10)\<close> returns no offset at all (the descent from the
  root, whose separators are 5 and 0, starts the scan at page 1).
\<close>

theorem SearchRange_misses_entries:
  "NewBPlusTree (NewPager []) 3 = Inr demo0
   \<and> Insert demo0 30 300 = Some (demo1, None)
   \<and> Insert demo1 20 200 = Some (demo2, None)
   \<and> Insert demo2 10 100 = Some (demo3, None)
   \<and> Insert demo3 5 50 = Some (demo4, None)
   \<and> Insert demo4 1 10 = Some (demo5, None)
   \<and> isLeaf (pageAt (pager demo5) 0) \<and> leafEntries (pageAt (pager demo5) 0) = [(1, 10)]
   \<and> getNextLeafPageID (pageAt (pager demo5) 0) = 3
   \<and> isLeaf (pageAt (pager demo5) 3) \<and> leafEntries (pageAt (pager demo5) 3) = [(5, 50), (10, 100)]
   \<and> getNextLeafPageID (pageAt (pager demo5) 3) = 1
   \<and> isLeaf (pageAt (pager demo5) 1) \<and> leafEntries (pageAt (pager demo5) 1) = [(20, 200), (30, 300)]
   \<and> getNextLeafPageID (pageAt (pager demo5) 1) = - 1
   \<and> map snd (filter (\<lambda>(k, v). 5 \<le>s k \<and> k \<le>s 10)
         (leafEntries (pageAt (pager demo5) 0) @ leafEntries (pageAt (pager demo5) 3)
            @ leafEntries (pageAt (pager demo5) 1))) = [50, 100]
   \<and> SearchRange demo5 5 10 = Some (Inr [])"
proof -
  have "map snd (filter (\<lambda>(k, v). 5 \<le>s k \<and> k \<le>s 10)
          ([(1 :: int64, 10 :: int64)] @ [(5, 50), (10, 100)] @ [(20, 200), (30, 300)])) = [50, 100]"
    by (simp add: word_sle_eq)
  then show ?thesis
    using demo0 demo1 demo2 demo3 demo4 demo5 demo5_leaves demo5_SearchRange by simp
qed

section \<open>Opening the file again\<close>

lemma reopen_same:
  assumes "wholePages ps" "0 < length ps" "length ps < 2 ^ 51"
    and "pager t = pagerOf ps (length ps)" "rootPageID t = 0" "3 \<le> degree t"
  shows "NewBPlusTree (NewPager (file' (pager t))) (degree t) = Inr t"
proof -
  have p: "NewPager (file' (pager t)) = pager t"
    using assms by (simp add: NewPager_concat)
  have "length ps < 2 ^ 64" using assms(3) by simp
  then have "take_bit 64 (length ps) = length ps" by (simp only: take_bit_nat_eq_self)
  moreover have "(word_of_nat a :: int64) = word_of_nat b \<longleftrightarrow> take_bit 64 a = take_bit 64 b" for a b
    by (simp add: word_of_nat_eq_iff)
  ultimately have "(word_of_nat (length ps) :: int64) \<noteq> word_of_nat 0"
    using assms(2) by (simp only: take_bit_0) simp
  then have "(word_of_nat (length ps) :: int64) \<noteq> 0"
    by simp
  then have "numPages (pager t) \<noteq> 0"
    using assms(4) by simp
  then show ?thesis
    using assms(5,6) by (simp add: NewBPlusTree_def p)
qed

text \<open>
  Claim C7, as amended. Let the root of the tree still be page 0, and let the file consist
  of whole pages whose number is the page count the pager tracks. Then a pager opened on
  the same file and a tree constructed on it with the same degree give, for every key and
  every range, the results of \<^verbatim>\<open>Search\<close> and \<^verbatim>\<open>SearchRange\<close> that the tree gave before.
\<close>

theorem reopen_preserves_results:
  assumes "wholePages ps" "0 < length ps" "length ps < 2 ^ 51"
    and "pager t = pagerOf ps (length ps)" "rootPageID t = 0" "3 \<le> degree t"
  shows "\<exists>t'. NewBPlusTree (NewPager (file' (pager t))) (degree t) = Inr t'
           \<and> (\<forall>key. Search t' key = Search t key)
           \<and> (\<forall>startKey endKey. SearchRange t' startKey endKey = SearchRange t startKey endKey)"
  using reopen_same [OF assms] by simp

theorem reopen_preserves_results_witness:
  "NewBPlusTree (NewPager []) 3 = Inr demo0
   \<and> Insert demo0 30 300 = Some (demo1, None)
   \<and> Insert demo1 20 200 = Some (demo2, None)
   \<and> wholePages [encPage (mkNode 0 1 (- 1) 2 (- 1) [20, 200, 30, 300])]
   \<and> pager demo2 = pagerOf [encPage (mkNode 0 1 (- 1) 2 (- 1) [20, 200, 30, 300])] 1
   \<and> rootPageID demo2 = 0
   \<and> degree demo2 = 3
   \<and> (\<exists>t'. NewBPlusTree (NewPager (file' (pager demo2))) 3 = Inr t'
           \<and> (\<forall>key. Search t' key = Search demo2 key)
           \<and> (\<forall>startKey endKey. SearchRange t' startKey endKey = SearchRange demo2 startKey endKey))"
  using reopen_preserves_results [of "[encPage (mkNode 0 1 (- 1) 2 (- 1) [20, 200, 30, 300])]" demo2]
    demo0 demo1 demo2
  by (simp add: demo2_def mkTree_def)

text \<open>
  The claim C7 as it is written fails once the root has split. With degree 3 the keys 30,
  20 and 10 are inserted into an empty file; the third insert splits the root leaf and
  makes page 2 the root. The tree in memory finds the key 20. A tree constructed on the
  same file takes page 0 for its root, a leaf that holds the key 10 alone, and does not
  find it.
\<close>

theorem reopen_after_root_split_counterexample:
  "NewBPlusTree (NewPager []) 3 = Inr demo0
   \<and> Insert demo0 30 300 = Some (demo1, None)
   \<and> Insert demo1 20 200 = Some (demo2, None)
   \<and> Insert demo2 10 100 = Some (demo3, None)
   \<and> Search demo3 20 = Some (Inr (200, True))
   \<and> NewBPlusTree (NewPager (file' (pager demo3))) 3 = Inr demo3reopened
   \<and> Search demo3reopened 20 = Some (Inr (0, False))"
  using demo0 demo1 demo2 demo3 demo3_Search20 demo3_reopen demo3reopened_Search20
  by simp

section \<open>The split of a leaf\<close>

text \<open>
  Claim C5. Let the file consist of whole pages, their number being the page count of the
  pager, and let \<open>D\<close> be the degree (from 3 up to 255, so that a page holds \<open>D - 1\<close>
  entries). \<^verbatim>\<open>splitAndInsertLeaf\<close> on a leaf that holds \<open>D - 1\<close> entries then reaches its
  call of \<^verbatim>\<open>insertIntoParent\<close>, with the parent of the old page, the promoted key and the
  id of the new page (the old page count). The \<open>D\<close> entries are those of the leaf with
  the new one put before the first larger key (in increasing order when those of the leaf
  are and the key is new). In the file the old page keeps the first \<open>\<lfloor>D/2\<rfloor>\<close> of them
  and the new page holds the other \<open>\<lceil>D/2\<rceil>\<close>; the promoted key is the first key of the new
  page; the new page's next leaf is the old page's next leaf from before the split, the
  old page's next leaf is the new page; both have the parent of the old page.
\<close>

theorem splitLeaf_halves:
  assumes pages: "wholePages ps" "length ps < 2 ^ 51 - 1" "pager t = pagerOf ps (length ps)"
    and old: "unat oldPageID < length ps" "length oldPage = PageSize"
    and deg: "3 \<le> degree t" "degree t \<le> 255" "int (getNumKeys oldPage) = degree t - 1"
  shows "\<exists>t' promoted.
      splitLeaf t oldPageID oldPage key value
        = (t', Inr (getParentPageID oldPage, promoted, word_of_nat (length ps)))
      \<and> (let temp = insertEntry (key, value) (leafEntries oldPage);
             old' = pageAt (pager t') (unat oldPageID);
             new' = pageAt (pager t') (length ps)
         in length temp = nat (degree t)
            \<and> leafEntries old' = take (nat (degree t) div 2) temp
            \<and> leafEntries new' = drop (nat (degree t) div 2) temp
            \<and> length (leafEntries old') = nat (degree t) div 2
            \<and> length (leafEntries new') = (nat (degree t) + 1) div 2
            \<and> promoted = fst (hd (leafEntries new'))
            \<and> isLeaf new' \<and> isLeaf old' = isLeaf oldPage
            \<and> getNextLeafPageID new' = getNextLeafPageID oldPage
            \<and> getNextLeafPageID old' = word_of_nat (length ps)
            \<and> getParentPageID new' = getParentPageID oldPage
            \<and> getParentPageID old' = getParentPageID oldPage
            \<and> (sorted_wrt (<s) (map fst (leafEntries oldPage))
                 \<and> key \<notin> set (map fst (leafEntries oldPage))
                 \<longrightarrow> sorted_wrt (<s) (map fst temp)))"
proof -
  define n where "n = decPage oldPage"
  have op: "oldPage = encPage n" using old(2) by (simp add: n_def encPage_decPage)
  define D where "D = nat (degree t)"
  define s where "s = D div 2"
  define temp where "temp = insertEntry (key, value) (leafEntries oldPage)"
  define newID :: PageID where "newID = word_of_nat (length ps)"
  have D: "3 \<le> D" "D \<le> 255" "degree t = int D" using deg by (simp_all add: D_def)
  have nk: "getNumKeys oldPage = D - 1" using deg(3) D by simp
  then have nk254: "getNumKeys oldPage \<le> 254" using D by simp
  have lt: "length temp = D"
    using D by (simp add: temp_def leafEntries_def nk)
  have s: "0 < s" "s < D" "nat (degree t div 2) = s" "min D s = s"
    using D by (simp_all add: s_def)
  have lens: "length (take s temp) = s" "length (drop s temp) = D - s" "s \<le> 254" "D - s \<le> 254"
    using D s lt by (simp_all add: s_def)
  obtain r ins where cl:
    "collectLeaf oldPage key value (getNumKeys oldPage) 0 False [] = Inr (r, ins)"
    "(if \<not> ins then r @ [(key, value)] else r) = temp"
    using collectLeaf_insertEntry [OF old(2) nk254, of key "value"] unfolding temp_def by blast
  have "drop s temp \<noteq> []" using lens s by auto
  then obtain kp vp rest where right: "drop s temp = (kp, vp) # rest"
    by (cases "drop s temp") auto
  define L1 where "L1 = encPage (n\<lparr>nNum := s, nSlots := flatEntries (take s temp)\<rparr>)"
  have wl: "writeEntries (setNumKeys (clearPayload oldPage) s) 0 (take s temp) = Inr L1"
    using writeEntries_encPage [of "n\<lparr>nSlots := [], nNum := s\<rparr>" "[]" 0 "take s temp"] lens
    by (simp add: op L1_def)
  define z where "z = \<lparr>nType = 0, nRoot = 0, nRes1 = [], nParent = nParent n, nNum = D - s,
                        nRes2 = [], nNext = 0, nSlots = []\<rparr>"
  define R1 where "R1 = encPage (z\<lparr>nSlots := flatEntries (drop s temp)\<rparr>)"
  have wr: "writeEntries (setNumKeys (setParentPageID (newPage[0 := 0]) (getParentPageID oldPage)) (D - s))
              0 (drop s temp) = Inr R1"
    using writeEntries_encPage [of z "[]" 0 "drop s temp"] lens
    by (simp add: op R1_def z_def newPage_encPage)
  define L where "L = setNextLeafPageID L1 newID"
  define R where "R = setNextLeafPageID R1 (getNextLeafPageID L1)"
  have lenLR: "length L = PageSize" "length R = PageSize"
    by (simp_all add: L_def R_def L1_def R1_def)
  have alloc: "AllocatePage (pager t) = (newID, pagerOf ps (Suc (length ps)))"
    by (simp add: pages(3) AllocatePage_pagerOf newID_def)
  have w1: "WritePage (pagerOf ps (Suc (length ps))) oldPageID L
      = (pagerOf (ps[unat oldPageID := L]) (Suc (length ps)), None)"
    using pages old lenLR by (intro WritePage_pagerOf) simp_all
  have wp': "wholePages (ps[unat oldPageID := L])"
    using pages(1) lenLR(1) by (rule wholePages_update)
  have unew: "unat newID = length ps"
    using pages(2) unfolding newID_def by (intro unat_word_of_nat_pages) simp
  have w2: "WritePage (pagerOf (ps[unat oldPageID := L]) (Suc (length ps))) newID R
      = (pagerOf (ps[unat oldPageID := L] @ [R]) (Suc (length ps)), None)"
    using wp' unew pages(2) lenLR(2) by (intro WritePage_pagerOf_end) simp_all
  define t' where "t' = t\<lparr>pager := pagerOf (ps[unat oldPageID := L] @ [R]) (Suc (length ps))\<rparr>"
  have parL: "getParentPageID L = getParentPageID oldPage"
    by (simp add: L_def L1_def op)
  have res: "splitLeaf t oldPageID oldPage key value
      = (t', Inr (getParentPageID oldPage, kp, newID))"
    unfolding splitLeaf_def alloc Let_def prod.case
    unfolding cl(1) sum.case prod.case cl(2) s(3) lens(1,2)
    unfolding wl wr sum.case
    unfolding right list.case prod.case
    unfolding BPlusTree.simps L_def [symmetric] R_def [symmetric] w1 w2 prod.case option.case
    using deg(1) by (simp add: t'_def parL w1 w2)
  have pL: "pageAt (pager t') (unat oldPageID) = L"
    using wp' lenLR old(1) by (simp add: t'_def pageAt_pagerOf nth_append)
  have pR: "pageAt (pager t') (length ps) = R"
    using wp' lenLR by (simp add: t'_def pageAt_pagerOf nth_append)
  have eL: "leafEntries L = take s temp"
    unfolding L_def L1_def using lens by (simp add: leafEntries_encPage_flat)
  have eR: "leafEntries R = drop s temp"
    unfolding R_def R1_def z_def using lens by (simp add: leafEntries_encPage_flat)
  have hdr: "isLeaf R" "isLeaf L = isLeaf oldPage"
    "getNextLeafPageID R = getNextLeafPageID oldPage" "getNextLeafPageID L = newID"
    "getParentPageID R = getParentPageID oldPage"
    by (simp_all add: L_def R_def L1_def R1_def z_def op)
  have ceil: "D - s = (D + 1) div 2" by (simp add: s_def)
  have sorted: "sorted_wrt (<s) (map fst (leafEntries oldPage))
                 \<and> key \<notin> set (map fst (leafEntries oldPage))
                 \<longrightarrow> sorted_wrt (<s) (map fst temp)"
    unfolding temp_def using sorted_insertEntry [of "leafEntries oldPage" "(key, value)"] by simp
  show ?thesis
    apply (rule exI [of _ t'])
    apply (rule exI [of _ kp])
    unfolding res Let_def pL pR eL eR temp_def [symmetric] D_def [symmetric] s_def [symmetric]
      newID_def [symmetric]
    using lt lens hdr parL ceil sorted right
    by simp
qed

theorem splitLeaf_halves_witness:
  "wholePages demo4pages
   \<and> length demo4pages < 2 ^ 51 - 1
   \<and> pager demo4 = pagerOf demo4pages (length demo4pages)
   \<and> unat (0 :: PageID) < length demo4pages
   \<and> length (demo4pages ! 0) = PageSize
   \<and> 3 \<le> degree demo4 \<and> degree demo4 \<le> 255
   \<and> int (getNumKeys (demo4pages ! 0)) = degree demo4 - 1
   \<and> splitLeaf demo4 0 (demo4pages ! 0) 1 10 = (demo4split, Inr (2, 5, 3))
   \<and> (\<exists>t' promoted.
      splitLeaf demo4 0 (demo4pages ! 0) 1 10
        = (t', Inr (getParentPageID (demo4pages ! 0), promoted, word_of_nat (length demo4pages)))
      \<and> (let temp = insertEntry (1, 10) (leafEntries (demo4pages ! 0));
             old' = pageAt (pager t') (unat (0 :: PageID));
             new' = pageAt (pager t') (length demo4pages)
         in length temp = nat (degree demo4)
            \<and> leafEntries old' = take (nat (degree demo4) div 2) temp
            \<and> leafEntries new' = drop (nat (degree demo4) div 2) temp
            \<and> length (leafEntries old') = nat (degree demo4) div 2
            \<and> length (leafEntries new') = (nat (degree demo4) + 1) div 2
            \<and> promoted = fst (hd (leafEntries new'))
            \<and> isLeaf new' \<and> isLeaf old' = isLeaf (demo4pages ! 0)
            \<and> getNextLeafPageID new' = getNextLeafPageID (demo4pages ! 0)
            \<and> getNextLeafPageID old' = word_of_nat (length demo4pages)
            \<and> getParentPageID new' = getParentPageID (demo4pages ! 0)
            \<and> getParentPageID old' = getParentPageID (demo4pages ! 0)
            \<and> (sorted_wrt (<s) (map fst (leafEntries (demo4pages ! 0)))
                 \<and> 1 \<notin> set (map fst (leafEntries (demo4pages ! 0)))
                 \<longrightarrow> sorted_wrt (<s) (map fst temp))))"
proof -
  have a: "wholePages demo4pages" by (simp add: demo4pages_def)
  have b: "length demo4pages < 2 ^ 51 - 1" by (simp add: demo4pages_def)
  have c: "pager demo4 = pagerOf demo4pages (length demo4pages)"
    by (simp add: demo4_def demo4pages_def mkTree_def numeral_3_eq_3)
  have d: "unat (0 :: PageID) < length demo4pages" by (simp add: demo4pages_def)
  have e: "length (demo4pages ! 0) = PageSize" by (simp add: demo4pages_def)
  have f: "3 \<le> degree demo4" "degree demo4 \<le> 255" by (simp_all add: demo4_def mkTree_def)
  have g: "int (getNumKeys (demo4pages ! 0)) = degree demo4 - 1"
    by (simp add: demo4_def demo4pages_def mkTree_def mkNode_def)
  have "pageAt (pager demo4) 0 = demo4pages ! 0"
    by (simp add: demo4_def demo4pages_def mkTree_def pageAt_pagerOf)
  then have h: "splitLeaf demo4 0 (demo4pages ! 0) 1 10 = (demo4split, Inr (2, 5, 3))"
    using demo4_split by simp
  show ?thesis
    by (intro conjI a b c d e f g h splitLeaf_halves [OF a b c d e f g, of 1 10])
qed

section \<open>Duplicate keys\<close>

text \<open>
  Claim C6. When the descent for \<open>key\<close> reaches a leaf that holds \<open>key\<close> (as the key of
  one of the entries the page has room for), \<^verbatim>\<open>Insert\<close> returns the duplicate-key error
  and the state it leaves is the state it found: the bytes of the file and the counters
  of the pager are the same, and so are the root and the degree.
\<close>

theorem Insert_duplicate_no_write:
  assumes "findLeafPage t key = Some (Inr leafPageID)"
    and "ReadPage (pager t) leafPageID newPage = (leafPage, None)"
    and "i < getNumKeys leafPage" "i < 254" "slot leafPage (2 * i) = key"
  shows "Insert t key value = Some (t, Some (DuplicateKey key))"
proof -
  have "length leafPage = PageSize"
    using length_ReadPage [of "pager t" leafPageID newPage] assms(2) by simp
  then have "hasKey leafPage key (getNumKeys leafPage) 0 = Inr True"
    using assms by (intro hasKey_found [where i = i]) simp_all
  then show ?thesis
    using assms(1,2) by (simp add: Insert_def Let_def)
qed

theorem Insert_duplicate_no_write_witness:
  "findLeafPage demo4 5 = Some (Inr 0)
   \<and> ReadPage (pager demo4) 0 newPage = (pageAt (pager demo4) 0, None)
   \<and> 0 < getNumKeys (pageAt (pager demo4) 0)
   \<and> slot (pageAt (pager demo4) 0) (2 * 0) = 5
   \<and> Insert demo4 5 999 = Some (demo4, Some (DuplicateKey 5))"
proof -
  have a: "findLeafPage demo4 5 = Some (Inr 0)"
    by (simp add: demo4_def eval_simps)
  have b: "ReadPage (pager demo4) 0 newPage = (pageAt (pager demo4) 0, None)"
    by (simp add: demo4_def eval_simps)
  have c: "0 < getNumKeys (pageAt (pager demo4) 0)"
    by (simp add: demo4_def eval_simps)
  have d: "slot (pageAt (pager demo4) 0) (2 * 0) = 5"
    by (simp add: demo4_def eval_simps)
  show ?thesis
    using Insert_duplicate_no_write [OF a b c _ d, of 999] a b c d by simp
qed


end
